theory Spec2Isabelle
  imports Complex_Main
begin

chapter \<open>Octasphere: triangulations of an eighth of the sphere\<close>

text \<open>
  A shallow embedding of the triangulation library (\<^verbatim>\<open>lib/triangulation\<close>) and of the
  lab page (\<^verbatim>\<open>lab/src/index.ts\<close>): the grid indexing of the mesh builder, the
  triangulation generators, the sine-ratio solver, the relaxation balancer and the edge
  enumeration of the quality metrics.

  Logical grid positions, subdivision orders and buffer indices are JavaScript numbers
  holding integers; they are modelled as \<^typ>\<open>int\<close> (positions can leave the grid on the
  negative side) or \<^typ>\<open>nat\<close> (array offsets produced by \<^verbatim>\<open>forEach\<close>).
\<close>

section \<open>The model\<close>

subsection \<open>Vertex indexing of the mesh builder\<close>

text \<open>
  \<^verbatim>\<open>rowVertices\<close> divides by two with the floating-point division of JavaScript; the
  dividend is always even (lemma \<open>rowVertices_exact\<close> below), so integer division
  computes the same number.
\<close>


definition rowVertices :: "int \<Rightarrow> int \<Rightarrow> int" where
  "rowVertices steps i = i * (2 * steps + 3 - i) div 2"

definition vtx :: "int \<Rightarrow> int \<Rightarrow> int \<Rightarrow> int" where
  "vtx steps i j = rowVertices steps i + j"

definition nVertices :: "int \<Rightarrow> int" where
  "nVertices steps = rowVertices steps (steps + 1)"

text \<open>
  A logical vertex position \<open>(i, j)\<close> of a grid of order \<open>n\<close>, with \<open>k = n - i - j\<close>
  implied; this is the test \<^verbatim>\<open>i_ >= 0 && j_ >= 0 && k_ >= 0\<close> of the metrics.
\<close>

definition validPos :: "int \<Rightarrow> int \<Rightarrow> int \<Rightarrow> bool" where
  "validPos n i j = (0 \<le> i \<and> 0 \<le> j \<and> 0 \<le> n - i - j)"

subsection \<open>Numbers and vectors\<close>

text \<open>
  Coordinates are JavaScript numbers. They are modelled by exact reals: every statement
  below about coordinates is a statement about the formulas of the source in exact
  arithmetic, without rounding. Where the source can produce a non-finite number from
  finite ones (a division by zero, \<^verbatim>\<open>Math.asin\<close> outside \<open>[-1, 1]\<close>) the model tests
  for it and says so, instead of using the value HOL gives to \<open>1 / 0\<close>.

  \<^verbatim>\<open>Vector3\<close> is the class of the Babylon library; its fields \<^verbatim>\<open>x\<close>, \<^verbatim>\<open>y\<close>, \<^verbatim>\<open>z\<close> are
  called \<open>vx\<close>, \<open>vy\<close>, \<open>vz\<close> here, and the methods the source calls are written out from
  the library's documentation. The in-place methods (\<^verbatim>\<open>addInPlace\<close>, \<^verbatim>\<open>scaleInPlace\<close>,
  \<^verbatim>\<open>subtractInPlace\<close>, \<^verbatim>\<open>normalize\<close>) return the receiver after updating it; the model
  returns the updated vector.
\<close>

record Vector3 =
  vx :: real
  vy :: real
  vz :: real

definition v3 :: "real \<Rightarrow> real \<Rightarrow> real \<Rightarrow> Vector3" where
  "v3 a b c = \<lparr>vx = a, vy = b, vz = c\<rparr>"

definition ex :: Vector3 where "ex = v3 1 0 0"
definition ey :: Vector3 where "ey = v3 0 1 0"
definition ez :: Vector3 where "ez = v3 0 0 1"

definition Zero :: Vector3 where "Zero = v3 0 0 0"

definition add :: "Vector3 \<Rightarrow> Vector3 \<Rightarrow> Vector3" where
  "add a b = v3 (vx a + vx b) (vy a + vy b) (vz a + vz b)"

definition subtract :: "Vector3 \<Rightarrow> Vector3 \<Rightarrow> Vector3" where
  "subtract a b = v3 (vx a - vx b) (vy a - vy b) (vz a - vz b)"

definition scale :: "Vector3 \<Rightarrow> real \<Rightarrow> Vector3" where
  "scale a s = v3 (vx a * s) (vy a * s) (vz a * s)"

definition dot :: "Vector3 \<Rightarrow> Vector3 \<Rightarrow> real" where
  "dot a b = vx a * vx b + vy a * vy b + vz a * vz b"


definition vlength :: "Vector3 \<Rightarrow> real" where
  "vlength a = sqrt (vx a * vx a + vy a * vy a + vz a * vz a)"

text \<open>
  \<^verbatim>\<open>normalize\<close> leaves a vector of length 0 or 1 as it is and scales every other one
  by the inverse of its length. (The name carries a prime because \<open>normalize\<close> is a
  constant of HOL; so does \<open>map2'\<close> below.)
\<close>

definition normalize' :: "Vector3 \<Rightarrow> Vector3" where
  "normalize' a =
     (let len = vlength a in if len = 0 \<or> len = 1 then a else scale a (1 / len))"

definition DistanceSquared :: "Vector3 \<Rightarrow> Vector3 \<Rightarrow> real" where
  "DistanceSquared a b =
     (vx a - vx b) * (vx a - vx b) + (vy a - vy b) * (vy a - vy b)
       + (vz a - vz b) * (vz a - vz b)"

type_synonym Triangulation = "Vector3 list list"

subsection \<open>The helpers of \<^verbatim>\<open>utils\<close>\<close>

text \<open>
  The module \<^verbatim>\<open>./utils\<close> is not among the source files. Its helpers are modelled from
  what the specification says about them.
\<close>

definition TAU :: real where
  \<comment> \<open>Modelled from the spec: \<^verbatim>\<open>TAU\<close> of the missing \<^verbatim>\<open>utils\<close>; the spec writes the sine
      warp as \<open>sin (\<pi>/2 \<sqdot> coordinate)\<close> where the source has \<^verbatim>\<open>TAU/4\<close>.\<close>
  "TAU = 2 * pi"

definition subdivide :: "real \<Rightarrow> real \<Rightarrow> nat \<Rightarrow> real list" where
  \<comment> \<open>Modelled from the spec: \<^verbatim>\<open>subdivide\<close> of the missing \<^verbatim>\<open>utils\<close>. The grid
      parameters are \<open>i / n\<close> for \<open>i = 0, \<dots>, n\<close>; for \<open>n = 0\<close> the spec asks for the
      single-point row, whose parameter is taken to be the lower end.\<close>
  "subdivide from to nSteps =
     (if nSteps = 0 then [from]
      else map (\<lambda>i. from + (to - from) * (real i / real nSteps)) [0 ..< nSteps + 1])"

definition lerp :: "Vector3 \<Rightarrow> Vector3 \<Rightarrow> real \<Rightarrow> Vector3" where
  \<comment> \<open>Modelled from the spec: \<^verbatim>\<open>lerp\<close> of the missing \<^verbatim>\<open>utils\<close>, linear interpolation.\<close>
  "lerp a b t = add a (scale (subtract b a) t)"

definition slerp :: "Vector3 \<Rightarrow> Vector3 \<Rightarrow> real \<Rightarrow> Vector3" where
  \<comment> \<open>Modelled from the spec: \<^verbatim>\<open>slerp\<close> of the missing \<^verbatim>\<open>utils\<close>, spherical linear
      interpolation between two unit vectors along their great-circle arc.\<close>
  "slerp a b t =
     (let omega = arccos (dot a b) in
      if sin omega = 0 then a
      else add (scale a (sin ((1 - t) * omega) / sin omega))
               (scale b (sin (t * omega) / sin omega)))"

definition map2' :: "'a list list \<Rightarrow> ('a \<Rightarrow> 'b) \<Rightarrow> 'b list list" where
  \<comment> \<open>Modelled from the spec: \<^verbatim>\<open>map2\<close> of the missing \<^verbatim>\<open>utils\<close>, which applies a function
      to every point of a grid.\<close>
  "map2' t f = map (map f) t"

subsection \<open>The triangulation generators\<close>

text \<open>
  \<^verbatim>\<open>triangulate\<close> maps over the rows with the row's parameter \<open>u\<close> and its offset \<open>j\<close>
  (the callback of \<^verbatim>\<open>Array.map\<close> gets both), and over each row with \<open>t\<close>.
  The parameter \<^verbatim>\<open>refinement\<close> defaults to 1.
\<close>

definition triangulate ::
    "(real \<Rightarrow> real \<Rightarrow> 'a) \<Rightarrow> nat \<Rightarrow> nat \<Rightarrow> 'a list list" where
  "triangulate f n refinement =
     map (\<lambda>(j, u). map (\<lambda>t. f t u) (subdivide 0 1 ((n - j) * refinement)))
       (enumerate 0 (subdivide 0 1 n))"

definition flat :: "nat \<Rightarrow> nat \<Rightarrow> Triangulation" where
  "flat = triangulate (\<lambda>t u. lerp (lerp ex ez t) ey u)"

definition collapsed :: "nat \<Rightarrow> nat \<Rightarrow> Triangulation" where
  "collapsed = triangulate (\<lambda>t u. Zero)"

definition geodesics :: "nat \<Rightarrow> nat \<Rightarrow> Triangulation" where
  "geodesics = triangulate (\<lambda>t u. normalize' (lerp (lerp ex ez t) ey u))"

definition parallels :: "nat \<Rightarrow> nat \<Rightarrow> Triangulation" where
  "parallels = triangulate (\<lambda>t u. slerp (slerp ex ez t) ey u)"

definition evenGeodesics :: "nat \<Rightarrow> nat \<Rightarrow> Triangulation" where
  "evenGeodesics = triangulate (\<lambda>t u. slerp (slerp ex ey u) (slerp ez ey u) t)"

definition sines :: "nat \<Rightarrow> Triangulation" where
  "sines n = map2' (flat n 1)
     (\<lambda>v. v3 (sin (TAU / 4 * vx v)) (sin (TAU / 4 * vy v)) (sin (TAU / 4 * vz v)))"

definition sineBased :: "nat \<Rightarrow> Triangulation" where
  "sineBased n = map2' (sines n) normalize'"

text \<open>
  Parallel projection in the direction \<open>(1, 1, 1)\<close> onto the unit sphere. \<^verbatim>\<open>Math.sqrt\<close>
  of a negative number is \<^verbatim>\<open>NaN\<close>; then every coordinate of the result is \<^verbatim>\<open>NaN\<close>,
  which \<open>None\<close> stands for.
\<close>

definition proj :: "Vector3 \<Rightarrow> Vector3 option" where
  "proj p =
     (let x = vx p; y = vy p; z = vz p;
          radicand = 2 * (x * y + x * z + y * z - x * x - y * y - z * z) + 3
      in if radicand < 0 then None
         else (let lambda = (sqrt radicand - (x + y + z)) / 3
               in Some (v3 (x + lambda) (y + lambda) (z + lambda))))"

definition sineBased2 :: "nat \<Rightarrow> Vector3 option list list" where
  "sineBased2 n = map2' (sines n) proj"

subsection \<open>The sine-ratio solver\<close>

definition baryNorm :: "Vector3 \<Rightarrow> real" where
  "baryNorm p = vx p + vy p + vz p"

text \<open>
  \<^verbatim>\<open>baryNormalizeInPlace\<close> scales by \<^verbatim>\<open>1 / baryNorm(p)\<close>. For \<^verbatim>\<open>baryNorm(p) = 0\<close> the
  factor is infinite and every coordinate of the result is infinite or \<^verbatim>\<open>NaN\<close>: the
  model returns \<open>None\<close> for such a vector.
\<close>

definition baryNormalizeInPlace :: "Vector3 \<Rightarrow> Vector3 option" where
  "baryNormalizeInPlace p =
     (if baryNorm p = 0 then None else Some (scale p (1 / baryNorm p)))"

text \<open>
  The componentwise \<^verbatim>\<open>Math.asin\<close> of the loop; \<^verbatim>\<open>Math.asin\<close> is \<^verbatim>\<open>NaN\<close> outside
  \<open>[-1, 1]\<close>.
\<close>

definition asin3 :: "Vector3 \<Rightarrow> Vector3 option" where
  "asin3 g =
     (if \<bar>vx g\<bar> \<le> 1 \<and> \<bar>vy g\<bar> \<le> 1 \<and> \<bar>vz g\<bar> \<le> 1
      then Some (v3 (arcsin (vx g)) (arcsin (vy g)) (arcsin (vz g)))
      else None)"

text \<open>
  What a call leaves behind: the value it returns, the number of passes through the
  body of its loop that it started, and the lines it wrote with \<^verbatim>\<open>console.warn\<close>.
\<close>

record 'a run =
  returned :: 'a
  passes :: nat
  warnings :: "string list"

text \<open>The first three statements of the loop body: the offset of a guess from \<open>p\<close>.\<close>

definition angleOffset :: "Vector3 \<Rightarrow> Vector3 \<Rightarrow> Vector3 option" where
  "angleOffset p guess =
     (case asin3 guess of
        None \<Rightarrow> None
      | Some angles0 \<Rightarrow>
          (case baryNormalizeInPlace angles0 of
             None \<Rightarrow> None
           | Some angles \<Rightarrow> Some (subtract angles p)))"

text \<open>The last statement of the loop body: the guess of the next pass.\<close>

definition nextGuess :: "Vector3 \<Rightarrow> Vector3 \<Rightarrow> Vector3 option" where
  "nextGuess guess offset =
     (case baryNormalizeInPlace guess of
        None \<Rightarrow> None
      | Some g \<Rightarrow> Some (normalize' (subtract g offset)))"

text \<open>
  Once a coordinate of the guess is not finite, no later pass can succeed (a comparison
  with \<^verbatim>\<open>NaN\<close> is false and the next guess is \<^verbatim>\<open>NaN\<close> again), so the loop runs to its
  end, warns and returns the guess, which \<open>None\<close> stands for.
\<close>

definition iterationFailed :: "Vector3 option \<Rightarrow> Vector3 option run" where
  "iterationFailed guess =
     \<lparr>returned = guess, passes = 30, warnings = [''findSineRatio: iteration failed'']\<rparr>"

function findSineRatio_loop :: "Vector3 \<Rightarrow> nat \<Rightarrow> Vector3 \<Rightarrow> Vector3 option run" where
  "findSineRatio_loop p i guess =
     (if i < 30 then
        (case angleOffset p guess of
           None \<Rightarrow> iterationFailed None
         | Some offset \<Rightarrow>
             if vlength offset < 1 / 10 ^ 10
             then \<lparr>returned = Some guess, passes = i + 1, warnings = []\<rparr>
             else (case nextGuess guess offset of
                     None \<Rightarrow> iterationFailed None
                   | Some guess' \<Rightarrow> findSineRatio_loop p (i + 1) guess'))
      else iterationFailed (Some guess))"
  by pat_completeness auto
termination
  by (relation "measure (\<lambda>(p, i, guess). 30 - i)") auto

definition sineGuess :: "Vector3 \<Rightarrow> Vector3" where
  "sineGuess p =
     normalize' (v3 (sin (TAU / 4 * vx p)) (sin (TAU / 4 * vy p)) (sin (TAU / 4 * vz p)))"

definition findSineRatio :: "Vector3 \<Rightarrow> Vector3 option run" where
  "findSineRatio p = findSineRatio_loop p 0 (sineGuess p)"

definition asinBased :: "nat \<Rightarrow> nat \<Rightarrow> Vector3 option list list" where
  "asinBased n refinement = map2' (flat n refinement) (\<lambda>p. returned (findSineRatio p))"

subsection \<open>The relaxation balancer\<close>

text \<open>
  Reading \<^verbatim>\<open>tt[i][j]\<close> outside the grid gives \<^verbatim>\<open>undefined\<close> (or throws, when the row
  itself is missing), and the first use of \<^verbatim>\<open>undefined\<close> as a vector throws a
  \<^verbatim>\<open>TypeError\<close>. Every read of the source is used as a vector at once, so a read outside
  the grid is the error.
\<close>

datatype error = TypeError

definition readAt :: "'a list list \<Rightarrow> int \<Rightarrow> int \<Rightarrow> error + 'a" where
  "readAt tt i j =
     (if 0 \<le> i \<and> i < int (length tt) \<and> 0 \<le> j \<and> j < int (length (tt ! nat i))
      then Inr (tt ! nat i ! nat j) else Inl TypeError)"

text \<open>The results of a list of computations, or the first error among them.\<close>

fun collect :: "('e + 'a) list \<Rightarrow> 'e + 'a list" where
  "collect [] = Inr []"
| "collect (Inl e # rs) = Inl e"
| "collect (Inr v # rs) = (case collect rs of Inl e \<Rightarrow> Inl e | Inr vs \<Rightarrow> Inr (v # vs))"

definition mean :: "Vector3 list \<Rightarrow> Vector3" where
  "mean vectors = normalize' (foldl add Zero vectors)"

definition meanAt :: "(error + Vector3) list \<Rightarrow> error + Vector3" where
  "meanAt reads = (case collect reads of Inl e \<Rightarrow> Inl e | Inr vectors \<Rightarrow> Inr (mean vectors))"

definition balancePoint :: "Triangulation \<Rightarrow> int \<Rightarrow> int \<Rightarrow> Vector3 \<Rightarrow> error + Vector3" where
  "balancePoint tt i j v =
     (let n = int (length tt) - 1; k = n - i - j in
      if i = 0 then (if j = 0 \<or> k = 0 then Inr v else meanAt [readAt tt 0 (j - 1), readAt tt 0 (j + 1)])
      else if j = 0 then (if i = 0 \<or> k = 0 then Inr v else meanAt [readAt tt (i - 1) 0, readAt tt (i + 1) 0])
      else if k = 0 then
        (if i = 0 \<or> j = 0 then Inr v else meanAt [readAt tt (i - 1) (j + 1), readAt tt (i + 1) (j - 1)])
      else meanAt
        [readAt tt (i + 1) (j - 1), readAt tt (i + 1) j,
         readAt tt i (j - 1), readAt tt i (j + 1),
         readAt tt (i - 1) j, readAt tt (i - 1) (j + 1)])"

definition balance :: "Triangulation \<Rightarrow> error + Triangulation" where
  "balance t =
     collect (map (\<lambda>(i, row).
        collect (map (\<lambda>(j, v). balancePoint t (int i) (int j) v) (enumerate 0 row)))
       (enumerate 0 t))"

definition distSqSumOf :: "Triangulation \<Rightarrow> Triangulation \<Rightarrow> real" where
  \<comment> \<open>\<^verbatim>\<open>zip\<close> of the missing \<^verbatim>\<open>utils\<close> pairs the two flattened grids point by point.\<close>
  "distSqSumOf a b =
     foldl (+) 0 (map (\<lambda>(p, q). DistanceSquared p q) (zip (concat a) (concat b)))"

text \<open>
  The local \<^verbatim>\<open>nVertices\<close> of \<^verbatim>\<open>balanced\<close> is called \<open>nVerts\<close>, the mesh builder has a
  \<^verbatim>\<open>nVertices\<close> of its own.
\<close>

definition avgDist :: "nat \<Rightarrow> Triangulation \<Rightarrow> Triangulation \<Rightarrow> real" where
  "avgDist nVerts t refined = sqrt (distSqSumOf t refined / real nVerts)"

function balanced_loop :: "nat \<Rightarrow> nat \<Rightarrow> Triangulation \<Rightarrow> error + Triangulation run" where
  "balanced_loop nVerts r t =
     (if r < 100 then
        (case balance t of
           Inl e \<Rightarrow> Inl e
         | Inr refined \<Rightarrow>
             if avgDist nVerts t refined < 1 / 10 ^ 8
             then Inr \<lparr>returned = refined, passes = r + 1, warnings = []\<rparr>
             else balanced_loop nVerts (r + 1) refined)
      else Inr \<lparr>returned = t, passes = 100, warnings = []\<rparr>)"
  by pat_completeness auto
termination
  by (relation "measure (\<lambda>(nVerts, r, t). 100 - r)") auto

definition balanced :: "nat \<Rightarrow> error + Triangulation run" where
  "balanced n = (let t = sineBased n in balanced_loop (length (concat t)) 0 t)"

subsection \<open>The shape of a triangulation\<close>

text \<open>
  The source asks of a \<^verbatim>\<open>Triangulation\<close> that its last row has one point and every
  other row one point more than the next. For subdivision order \<open>n\<close> these are the row
  lengths \<open>n + 1, n, \<dots>, 1\<close>.
\<close>

definition rowLengths :: "nat \<Rightarrow> nat list" where
  "rowLengths n = map (\<lambda>i. n - i + 1) [0 ..< n + 1]"

definition triangular :: "nat \<Rightarrow> 'a list list \<Rightarrow> bool" where
  "triangular n t = (map length t = rowLengths n)"

text \<open>
  The grid a pass of \<^verbatim>\<open>balance\<close> returns when none of its reads fails (lemma
  \<open>balance_relaxed\<close> below shows that this is so on every triangular grid).
\<close>

definition relaxed :: "Triangulation \<Rightarrow> Triangulation" where
  "relaxed t = map (\<lambda>(i, row). map (\<lambda>(j, v). projr (balancePoint t (int i) (int j) v))
     (enumerate 0 row)) (enumerate 0 t)"

subsection \<open>The iterations, as the specification words them\<close>

text \<open>
  The specification describes the solver as the repetition of one step: ``compute
  \<open>angles = barycentric-normalize (asin g)\<close>; compute \<open>offset = angles - p\<close>; terminate
  successfully if \<open>\<parallel>offset\<parallel> < 10\<^sup>-\<^sup>1\<^sup>0\<close>; otherwise update \<open>g\<close> to
  \<open>normalize (barycentric-normalize g - offset)\<close>'', for at most 30 iterations. The
  definitions of this subsection are written from these words, coordinate by
  coordinate, and use nothing of the loop of the source; the theorems compare the loop
  with them. \<open>None\<close> is a vector with a coordinate that is not a finite number: the
  arcsine of a number outside \<open>[-1, 1]\<close>, or a quotient by a coordinate sum that is 0.
\<close>

definition barycentric :: "Vector3 \<Rightarrow> Vector3 option" where
  "barycentric v =
     (if vx v + vy v + vz v = 0 then None
      else Some (v3 (vx v / (vx v + vy v + vz v)) (vy v / (vx v + vy v + vz v))
                    (vz v / (vx v + vy v + vz v))))"

definition arcsines :: "Vector3 \<Rightarrow> Vector3 option" where
  "arcsines g =
     (if - 1 \<le> vx g \<and> vx g \<le> 1 \<and> - 1 \<le> vy g \<and> vy g \<le> 1 \<and> - 1 \<le> vz g \<and> vz g \<le> 1
      then Some (v3 (arcsin (vx g)) (arcsin (vy g)) (arcsin (vz g))) else None)"

definition solverAngles :: "Vector3 \<Rightarrow> Vector3 option" where
  "solverAngles g = (case arcsines g of None \<Rightarrow> None | Some a \<Rightarrow> barycentric a)"

definition solverOffset :: "Vector3 \<Rightarrow> Vector3 \<Rightarrow> Vector3 option" where
  "solverOffset p g =
     (case solverAngles g of
        None \<Rightarrow> None
      | Some angles \<Rightarrow> Some (v3 (vx angles - vx p) (vy angles - vy p) (vz angles - vz p)))"

definition solverStep :: "Vector3 \<Rightarrow> Vector3 \<Rightarrow> Vector3 option" where
  "solverStep p g =
     (case solverOffset p g of
        None \<Rightarrow> None
      | Some offset \<Rightarrow>
          (case barycentric g of
             None \<Rightarrow> None
           | Some b \<Rightarrow>
               Some (normalize' (v3 (vx b - vx offset) (vy b - vy offset) (vz b - vz offset)))))"

fun solverIterate :: "Vector3 \<Rightarrow> nat \<Rightarrow> Vector3 option \<Rightarrow> Vector3 option" where
  "solverIterate p 0 g = g"
| "solverIterate p (Suc m) g =
     solverIterate p m (case g of None \<Rightarrow> None | Some g' \<Rightarrow> solverStep p g')"

text \<open>The test of the solver: the offset of a guess is shorter than \<open>10\<^sup>-\<^sup>1\<^sup>0\<close>.\<close>

definition withinTolerance :: "Vector3 \<Rightarrow> Vector3 \<Rightarrow> bool" where
  "withinTolerance p g =
     (case solverOffset p g of
        None \<Rightarrow> False
      | Some offset \<Rightarrow> sqrt ((vx offset)\<^sup>2 + (vy offset)\<^sup>2 + (vz offset)\<^sup>2) < 1 / 10 ^ 10)"

text \<open>
  The run of the solver from a first guess \<open>g\<close>: it succeeds with the first of the
  iterates \<open>0, \<dots>, 29\<close> of the step that passes the test, having made one pass more than
  steps; when none passes, it has made 30 passes and 30 steps, returns the last iterate
  and has logged the warning.
\<close>

definition succeedsAt :: "Vector3 \<Rightarrow> Vector3 \<Rightarrow> nat \<Rightarrow> bool" where
  "succeedsAt p g m =
     (case solverIterate p m (Some g) of None \<Rightarrow> False | Some g' \<Rightarrow> withinTolerance p g')"

definition solverRun :: "Vector3 \<Rightarrow> Vector3 \<Rightarrow> Vector3 option run" where
  "solverRun p g =
     (case find (succeedsAt p g) [0 ..< 30] of
        Some m \<Rightarrow> \<lparr>returned = solverIterate p m (Some g), passes = m + 1, warnings = []\<rparr>
      | None \<Rightarrow> \<lparr>returned = solverIterate p 30 (Some g), passes = 30,
                 warnings = [''findSineRatio: iteration failed'']\<rparr>)"

text \<open>
  A unit vector of the closed first octant, where the eighth of the sphere lies; and
  the guesses a run of the solver for the point \<open>p\<close> stays among: vectors of that
  octant no coordinate of which, after barycentric normalization, exceeds \<open>\<pi>/2\<close> times
  the coordinate of \<open>p\<close>.
\<close>

definition onOctant :: "Vector3 \<Rightarrow> bool" where
  "onOctant v = (vlength v = 1 \<and> 0 \<le> vx v \<and> 0 \<le> vy v \<and> 0 \<le> vz v)"

definition guessFor :: "Vector3 \<Rightarrow> Vector3 \<Rightarrow> bool" where
  "guessFor p g =
     (onOctant g \<and> vx g \<le> pi / 2 * vx p * baryNorm g \<and> vy g \<le> pi / 2 * vy p * baryNorm g
      \<and> vz g \<le> pi / 2 * vz p * baryNorm g)"

text \<open>The grid after \<open>m\<close> passes of the balancer, none of which reads outside the grid.\<close>

definition passesOf :: "nat \<Rightarrow> Triangulation \<Rightarrow> Triangulation" where
  "passesOf m t = (relaxed ^^ m) t"

subsection \<open>The mesh builder\<close>

text \<open>
  The constructor of \<^verbatim>\<open>EighthSphereTriangulation\<close> fills typed arrays. They are modelled
  as lists of the allocated length, zero at first. Writing a typed array outside its
  bounds does nothing; a \<^verbatim>\<open>Uint32Array\<close> keeps an integer modulo \<open>2\<^sup>3\<^sup>2\<close>. The rounding
  of a \<^verbatim>\<open>Float32Array\<close> is not modelled. A texture coordinate is a quotient by
  \<^verbatim>\<open>steps\<close>, which is not a finite number for \<^verbatim>\<open>steps = 0\<close> (\<open>None\<close>).
\<close>

definition store :: "'a list \<Rightarrow> int \<Rightarrow> 'a \<Rightarrow> 'a list" where
  "store a idx v = (if 0 \<le> idx \<and> idx < int (length a) then a[nat idx := v] else a)"

definition ratio :: "real \<Rightarrow> int \<Rightarrow> real option" where
  "ratio a steps = (if steps = 0 then None else Some (a / real_of_int steps))"

record mesh =
  normals :: "real list"
  uvs :: "real option list"
  indices :: "int list"
  vertexIdx :: nat

definition nTriangles :: "int \<Rightarrow> int" where
  "nTriangles steps = 6 * 2 + 12 * steps * 2 + 8 * steps ^ 2"

definition emptyMesh :: "int \<Rightarrow> mesh" where
  "emptyMesh steps =
     \<lparr>normals = replicate (nat (nVertices steps * 3)) 0,
      uvs = replicate (nat (nVertices steps * 2)) (Some 0),
      indices = replicate (nat (nTriangles steps * 3)) 0,
      vertexIdx = 0\<rparr>"

definition setVertexData :: "int \<Rightarrow> Vector3 \<Rightarrow> real option \<Rightarrow> real option \<Rightarrow> mesh \<Rightarrow> mesh" where
  "setVertexData idx normal u v m =
     m\<lparr>normals :=
         store (store (store (normals m) (idx * 3 + 0) (vx normal))
           (idx * 3 + 1) (vy normal)) (idx * 3 + 2) (vz normal),
       uvs := store (store (uvs m) (idx * 2 + 0) u) (idx * 2 + 1) v\<rparr>"

definition triangle :: "(int \<Rightarrow> int \<Rightarrow> int) \<Rightarrow> mesh \<Rightarrow> mesh" where
  "triangle vtxLocal m =
     m\<lparr>indices :=
         store (store (store (indices m)
           (int (vertexIdx m) * 3 + 0) (vtxLocal 0 0 mod 2 ^ 32))
           (int (vertexIdx m) * 3 + 1) (vtxLocal 0 1 mod 2 ^ 32))
           (int (vertexIdx m) * 3 + 2) (vtxLocal 1 0 mod 2 ^ 32),
       vertexIdx := vertexIdx m + 1\<rparr>"

text \<open>The body of the inner \<^verbatim>\<open>forEach\<close>: one vertex and the triangles that end at it.\<close>

definition visitVertex :: "int \<Rightarrow> int \<Rightarrow> int \<Rightarrow> Vector3 \<Rightarrow> mesh \<Rightarrow> mesh" where
  "visitVertex steps i j v m =
     (let m1 = setVertexData (vtx steps i j) v
                 (ratio (real_of_int j + real_of_int i / 2) steps) (ratio (real_of_int i) steps) m;
          m2 = (if i > 0 then triangle (\<lambda>u v. vtx steps (i - 1 + u) (j + v)) m1 else m1)
      in if i > 0 \<and> j > 0 then triangle (\<lambda>u v. vtx steps (i - u) (j - v)) m2 else m2)"

definition visitRow :: "int \<Rightarrow> int \<Rightarrow> Vector3 list \<Rightarrow> mesh \<Rightarrow> mesh" where
  "visitRow steps i row m =
     foldl (\<lambda>m (j, v). visitVertex steps i (int j) v m) m (enumerate 0 row)"

definition fillMesh :: "int \<Rightarrow> Triangulation \<Rightarrow> mesh" where
  "fillMesh steps triangulation =
     foldl (\<lambda>m (i, row). visitRow steps (int i) row m) (emptyMesh steps)
       (enumerate 0 triangulation)"










text \<open>
  The state of the index buffer between two calls of \<^verbatim>\<open>triangle\<close>: every entry is a
  vertex index below \<open>N\<close>, and the entries from \<open>3 \<sqdot> vertexIdx\<close> on have not been written.
\<close>

definition indicesWithin :: "int \<Rightarrow> mesh \<Rightarrow> bool" where
  "indicesWithin N m =
     ((\<forall>x \<in> set (indices m). 0 \<le> x \<and> x < N)
      \<and> (\<forall>k. 3 * vertexIdx m \<le> k \<and> k < length (indices m) \<longrightarrow> indices m ! k = 0))"

subsection \<open>The quality metrics\<close>

definition forwardNeighborOffsets :: "(int \<times> int) list" where
  "forwardNeighborOffsets = [(1, - 1), (1, 0), (0, 1)]"




text \<open>
  The two vertices \<^verbatim>\<open>va\<close>, \<^verbatim>\<open>vb\<close> opposite to the edge from \<open>(i, j)\<close> in direction
  \<open>(di, dj)\<close>: grid points, or a point of the adjacent patch where the triangle would
  leave the grid.
\<close>

definition oppositeVertices ::
    "int \<Rightarrow> bool \<Rightarrow> Triangulation \<Rightarrow> int \<Rightarrow> int \<Rightarrow> Vector3 \<Rightarrow> int \<Rightarrow> int
      \<Rightarrow> error + Vector3 \<times> Vector3" where
  "oppositeVertices n adjCyl triangulation i j vtx0 di dj =
     (let ia = i + di + dj; ja = j - di;
          ib = i - dj; jb = j + di + dj in
      if ib < 0 then
        (case readAt triangulation 1 j of
           Inl e \<Rightarrow> Inl e
         | Inr va \<Rightarrow>
             Inr (va, if adjCyl then v3 (vx vtx0) (- 1) (vz vtx0)
                      else v3 (vx va) (- vy va) (vz va)))
      else if ja < 0 then
        (case readAt triangulation i 1 of
           Inl e \<Rightarrow> Inl e
         | Inr vb \<Rightarrow>
             Inr (if adjCyl then v3 (vx vtx0) (vy vtx0) (- 1)
                  else v3 (vx vb) (vy vb) (- vz vb), vb))
      else if ib + jb > n then
        (case readAt triangulation i (j - 1) of
           Inl e \<Rightarrow> Inl e
         | Inr vb \<Rightarrow>
             Inr (if adjCyl then v3 (- 1) (vy vtx0) (vz vtx0)
                  else v3 (- vx vb) (vy vb) (vz vb), vb))
      else
        (case readAt triangulation ia ja of
           Inl e \<Rightarrow> Inl e
         | Inr va \<Rightarrow>
             (case readAt triangulation ib jb of
                Inl e \<Rightarrow> Inl e
              | Inr vb \<Rightarrow> Inr (va, vb))))"



text \<open>
  Modelled from the spec: \<^verbatim>\<open>forTriangles\<close> of the library, which the page calls for
  the volume, is not among the source files. The specification sums ``over every
  triangle \<open>(a, b, c)\<close> of the primary patch'', and it lists the triangles of a patch:
  for each grid position with \<open>i > 0\<close> the upward triangle \<open>(i-1, j)\<close>, \<open>(i-1, j+1)\<close>,
  \<open>(i, j)\<close> and, when additionally \<open>j > 0\<close>, the downward triangle \<open>(i, j)\<close>, \<open>(i, j-1)\<close>,
  \<open>(i-1, j)\<close>. The three vertices are read from the grid, and a read outside the grid
  throws, as everywhere else. The callback is applied to the triangles in the order
  of the grid positions.
\<close>

definition readTriangle ::
    "Triangulation \<Rightarrow> int \<times> int \<Rightarrow> int \<times> int \<Rightarrow> int \<times> int
      \<Rightarrow> error + Vector3 \<times> Vector3 \<times> Vector3" where
  "readTriangle t pa pb pc =
     (case readAt t (fst pa) (snd pa) of
        Inl e \<Rightarrow> Inl e
      | Inr a \<Rightarrow>
          (case readAt t (fst pb) (snd pb) of
             Inl e \<Rightarrow> Inl e
           | Inr b \<Rightarrow>
               (case readAt t (fst pc) (snd pc) of
                  Inl e \<Rightarrow> Inl e
                | Inr c \<Rightarrow> Inr (a, b, c))))"

definition trianglesAt ::
    "Triangulation \<Rightarrow> int \<Rightarrow> int \<Rightarrow> (error + Vector3 \<times> Vector3 \<times> Vector3) list" where
  "trianglesAt t i j =
     (if i > 0 then [readTriangle t (i - 1, j) (i - 1, j + 1) (i, j)] else [])
     @ (if i > 0 \<and> j > 0 then [readTriangle t (i, j) (i, j - 1) (i - 1, j)] else [])"

definition forTriangles ::
    "Triangulation \<Rightarrow> (Vector3 \<Rightarrow> Vector3 \<Rightarrow> Vector3 \<Rightarrow> 's \<Rightarrow> 's) \<Rightarrow> 's \<Rightarrow> error + 's" where
  "forTriangles t f s =
     (case collect (concat (map (\<lambda>(i, row).
               concat (map (\<lambda>(j, v). trianglesAt t (int i) (int j)) (enumerate 0 row)))
             (enumerate 0 t))) of
        Inl e \<Rightarrow> Inl e
      | Inr ts \<Rightarrow> Inr (foldl (\<lambda>s (a, b, c). f a b c s) s ts))"








section \<open>Properties\<close>

subsection \<open>The linear vertex index\<close>



lemma rowVertices_exact: "2 * rowVertices steps i = i * (2 * steps + 3 - i)"
proof -
  have "even (i * (2 * steps + 3 - i))" by (cases "even i") auto
  then show ?thesis unfolding rowVertices_def by simp
qed

lemma rowVertices_0: "rowVertices n 0 = 0"
  by (simp add: rowVertices_def)

lemma rowVertices_Suc: "rowVertices n (i + 1) = rowVertices n i + (n + 1 - i)"
proof -
  have "2 * rowVertices n (i + 1) = 2 * (rowVertices n i + (n + 1 - i))"
    unfolding rowVertices_exact distrib_left by (simp add: algebra_simps)
  then show ?thesis by simp
qed

lemma rowVertices_mono:
  assumes "0 \<le> i" "i \<le> i'" "i' \<le> n + 1"
  shows "rowVertices n i \<le> rowVertices n i'"
proof -
  have "2 * rowVertices n i' - 2 * rowVertices n i = (i' - i) * (2 * n + 3 - i - i')"
    unfolding rowVertices_exact by (simp add: algebra_simps)
  moreover have "0 \<le> (i' - i) * (2 * n + 3 - i - i')"
    using assms by (intro mult_nonneg_nonneg) auto
  ultimately show ?thesis by linarith
qed

lemma nVertices_closed: "nVertices n = (n + 1) * (n + 2) div 2"
  by (simp add: nVertices_def rowVertices_def algebra_simps)

lemma vtx_lower: "validPos n i j \<Longrightarrow> rowVertices n i \<le> vtx n i j"
  by (simp add: vtx_def validPos_def)

lemma vtx_upper: "validPos n i j \<Longrightarrow> vtx n i j < rowVertices n (i + 1)"
  by (simp add: vtx_def validPos_def rowVertices_Suc)

lemma vtx_nonneg: "validPos n i j \<Longrightarrow> 0 \<le> vtx n i j"
  using rowVertices_mono [of 0 i n] vtx_lower [of n i j]
  by (simp add: rowVertices_0 validPos_def)

lemma vtx_less_nVertices: "validPos n i j \<Longrightarrow> vtx n i j < nVertices n"
  using rowVertices_mono [of "i + 1" "n + 1" n] vtx_upper [of n i j]
  by (simp add: nVertices_def validPos_def)

lemma vtx_row_major:
  assumes "validPos n i j" "validPos n i' j'" "i < i' \<or> (i = i' \<and> j < j')"
  shows "vtx n i j < vtx n i' j'"
proof (cases "i < i'")
  case True
  have "vtx n i j < rowVertices n (i + 1)" using assms(1) by (rule vtx_upper)
  also have "\<dots> \<le> rowVertices n i'"
    using assms(1,2) True by (intro rowVertices_mono) (auto simp: validPos_def)
  also have "\<dots> \<le> vtx n i' j'" using assms(2) by (rule vtx_lower)
  finally show ?thesis .
next
  case False
  with assms(3) show ?thesis by (simp add: vtx_def)
qed

lemma vtx_inj:
  assumes "validPos n i j" "validPos n i' j'" "vtx n i j = vtx n i' j'"
  shows "i = i' \<and> j = j'"
proof (rule ccontr)
  assume "\<not> (i = i' \<and> j = j')"
  then have "(i < i' \<or> (i = i' \<and> j < j')) \<or> (i' < i \<or> (i' = i \<and> j' < j))" by auto
  then show False
    using vtx_row_major [OF assms(1,2)] vtx_row_major [OF assms(2,1)] assms(3) by auto
qed

lemma vtx_surj_aux:
  "0 \<le> k \<Longrightarrow> k < rowVertices n (int m) \<Longrightarrow> int m \<le> n + 1 \<Longrightarrow>
   \<exists>i j. validPos n i j \<and> vtx n i j = k"
proof (induction m)
  case 0
  then show ?case by (simp add: rowVertices_0)
next
  case (Suc m)
  show ?case
  proof (cases "k < rowVertices n (int m)")
    case True
    with Suc show ?thesis by simp
  next
    case False
    have "rowVertices n (int (Suc m)) = rowVertices n (int m) + (n + 1 - int m)"
      using rowVertices_Suc [of n "int m"] by (simp add: add.commute)
    with Suc.prems False have "validPos n (int m) (k - rowVertices n (int m))"
      by (simp add: validPos_def)
    moreover have "vtx n (int m) (k - rowVertices n (int m)) = k" by (simp add: vtx_def)
    ultimately show ?thesis by blast
  qed
qed

lemma vtx_surj:
  assumes "0 \<le> n" "0 \<le> k" "k < nVertices n"
  shows "\<exists>i j. validPos n i j \<and> vtx n i j = k"
proof -
  have "int (nat (n + 1)) = n + 1" using assms(1) by simp
  then show ?thesis
    using vtx_surj_aux [of k n "nat (n + 1)"] assms by (simp add: nVertices_def)
qed

text \<open>
  Claim C8. For every order \<open>n \<ge> 0\<close> the vertex index \<open>(i, j) \<mapsto> i (2n + 3 - i) / 2 + j\<close>
  maps the valid grid positions one-to-one onto the integers from \<open>0\<close> up to, but not
  including, \<open>(n + 1) (n + 2) / 2\<close>, and it is row-major: a position in an earlier row, or
  earlier in the same row, gets the smaller index.
\<close>

theorem vtx_bijection_row_major:
  assumes "0 \<le> n"
  shows "bij_betw (\<lambda>(i, j). vtx n i j) {(i, j). validPos n i j} {0 ..< (n + 1) * (n + 2) div 2}
    \<and> (\<forall>i j i' j'. validPos n i j \<and> validPos n i' j' \<and> (i < i' \<or> (i = i' \<and> j < j'))
          \<longrightarrow> vtx n i j < vtx n i' j')"
proof (intro conjI)
  show "bij_betw (\<lambda>(i, j). vtx n i j) {(i, j). validPos n i j} {0 ..< (n + 1) * (n + 2) div 2}"
    unfolding bij_betw_def
  proof (intro conjI)
    show "inj_on (\<lambda>(i, j). vtx n i j) {(i, j). validPos n i j}"
      by (auto simp: inj_on_def dest: vtx_inj)
    show "(\<lambda>(i, j). vtx n i j) ` {(i, j). validPos n i j} = {0 ..< (n + 1) * (n + 2) div 2}"
    proof (intro set_eqI iffI)
      fix k assume "k \<in> (\<lambda>(i, j). vtx n i j) ` {(i, j). validPos n i j}"
      then show "k \<in> {0 ..< (n + 1) * (n + 2) div 2}"
        using vtx_nonneg vtx_less_nVertices by (auto simp: nVertices_closed [symmetric])
    next
      fix k assume "k \<in> {0 ..< (n + 1) * (n + 2) div 2}"
      then have "0 \<le> k" "k < nVertices n" by (simp_all add: nVertices_closed)
      from vtx_surj [OF assms this] obtain i j where "validPos n i j" "vtx n i j = k" by blast
      then show "k \<in> (\<lambda>(i, j). vtx n i j) ` {(i, j). validPos n i j}"
        by (auto simp: image_iff intro!: bexI [of _ "(i, j)"])
    qed
  qed
  show "\<forall>i j i' j'. validPos n i j \<and> validPos n i' j' \<and> (i < i' \<or> (i = i' \<and> j < j'))
          \<longrightarrow> vtx n i j < vtx n i' j'"
    using vtx_row_major by blast
qed

theorem vtx_bijection_row_major_witness:
  "(0::int) \<le> 2
   \<and> bij_betw (\<lambda>(i, j). vtx 2 i j) {(i, j). validPos 2 i j} {0 ..< (2 + 1) * (2 + 2) div 2}
   \<and> validPos 2 0 2 \<and> validPos 2 1 0 \<and> vtx 2 0 2 < vtx 2 1 0"
proof -
  have v: "validPos 2 0 2" "validPos 2 1 0" by (simp_all add: validPos_def)
  from vtx_bijection_row_major [of 2] v show ?thesis by auto
qed

subsection \<open>The shape of the generated grids\<close>

lemma length_subdivide: "length (subdivide a b m) = m + 1"
  by (simp add: subdivide_def)

lemma map_enumerate_fst:
  "map (\<lambda>(j, u). f j) (enumerate k xs) = map f [k ..< k + length xs]"
proof -
  have "map f [k ..< k + length xs] = map f (map fst (enumerate k xs))" by simp
  also have "\<dots> = map (\<lambda>(j, u). f j) (enumerate k xs)"
    unfolding map_map by (rule map_cong) auto
  finally show ?thesis by simp
qed

lemma rowLengths_triangulate:
  "map length (triangulate f n refinement) = map (\<lambda>j. (n - j) * refinement + 1) [0 ..< n + 1]"
proof -
  have "map length (triangulate f n refinement)
      = map (\<lambda>(j, u). (n - j) * refinement + 1) (enumerate 0 (subdivide 0 1 n))"
    by (simp add: triangulate_def length_subdivide case_prod_unfold comp_def)
  also have "\<dots> = map (\<lambda>j. (n - j) * refinement + 1) [0 ..< 0 + length (subdivide 0 1 n)]"
    by (rule map_enumerate_fst)
  finally show ?thesis by (simp add: length_subdivide)
qed

lemma rowLengths_map2: "map length (map2' t f) = map length t"
  by (simp add: map2'_def comp_def)

lemma collect_map_Inr:
  "(\<And>x. x \<in> set xs \<Longrightarrow> f x = Inr (g x)) \<Longrightarrow> collect (map f xs) = Inr (map g xs)"
  by (induction xs) simp_all

lemma collect_Inr_length: "collect rs = Inr vs \<Longrightarrow> length vs = length rs"
proof (induction rs arbitrary: vs)
  case Nil then show ?case by simp
next
  case (Cons r rs)
  then show ?case by (cases r) (auto split: sum.splits)
qed

lemma triangular_length: "triangular n t \<Longrightarrow> length t = n + 1"
  unfolding triangular_def rowLengths_def by (metis length_map length_upt diff_zero)

lemma triangular_row: 
  assumes "triangular n t" "i \<le> n" shows "length (t ! i) = n - i + 1"
proof -
  have "i < length t" using assms triangular_length by fastforce
  then have "length (t ! i) = map length t ! i" by simp
  also have "\<dots> = rowLengths n ! i" using assms(1) by (simp add: triangular_def)
  also have "\<dots> = n - i + 1" using assms(2) unfolding rowLengths_def
    by (simp del: upt_Suc)
  finally show ?thesis .
qed

lemma readAt_triangular:
  assumes "triangular n t" "i + j \<le> n"
  shows "readAt t (int i) (int j) = Inr (t ! i ! j)"
  using assms triangular_length [OF assms(1)] triangular_row [OF assms(1), of i]
  by (simp add: readAt_def)

lemma readAt_nat:
  "triangular n t \<Longrightarrow> a + b \<le> n \<Longrightarrow> i = int a \<Longrightarrow> j = int b \<Longrightarrow> readAt t i j = Inr (t ! a ! b)"
  using readAt_triangular by blast

lemma meanAt_Inr2: "meanAt [Inr a, Inr b] = Inr (mean [a, b])"
  by (simp add: meanAt_def)

lemma meanAt_Inr6:
  "meanAt [Inr a, Inr b, Inr c, Inr d, Inr e, Inr f] = Inr (mean [a, b, c, d, e, f])"
  by (simp add: meanAt_def)

lemma balancePoint_corner:
  assumes "triangular n t" "i + j \<le> n"
    "(i = 0 \<and> j = 0) \<or> (i = 0 \<and> j = n) \<or> (i = n \<and> j = 0)"
  shows "balancePoint t (int i) (int j) v = Inr v"
  using assms triangular_length [OF assms(1)]
  by (auto simp: balancePoint_def Let_def)

lemma balancePoint_edge_i:
  assumes "triangular n t" "0 < j" "j < n"
  shows "balancePoint t 0 (int j) v = Inr (mean [t ! 0 ! (j - 1), t ! 0 ! (j + 1)])"
proof -
  have r: "readAt t 0 (int j - 1) = Inr (t ! 0 ! (j - 1))"
          "readAt t 0 (int j + 1) = Inr (t ! 0 ! (j + 1))"
    by (rule readAt_nat [OF assms(1)]; use assms in simp)+
  show ?thesis
    using assms triangular_length [OF assms(1)]
    by (simp add: balancePoint_def Let_def r meanAt_Inr2)
qed

lemma balancePoint_edge_j:
  assumes "triangular n t" "0 < i" "i < n"
  shows "balancePoint t (int i) 0 v = Inr (mean [t ! (i - 1) ! 0, t ! (i + 1) ! 0])"
proof -
  have r: "readAt t (int i - 1) 0 = Inr (t ! (i - 1) ! 0)"
          "readAt t (int i + 1) 0 = Inr (t ! (i + 1) ! 0)"
    by (rule readAt_nat [OF assms(1)]; use assms in simp)+
  show ?thesis
    using assms triangular_length [OF assms(1)]
    by (simp add: balancePoint_def Let_def r meanAt_Inr2)
qed

lemma balancePoint_edge_k:
  assumes "triangular n t" "0 < i" "0 < j" "i + j = n"
  shows "balancePoint t (int i) (int j) v
       = Inr (mean [t ! (i - 1) ! (j + 1), t ! (i + 1) ! (j - 1)])"
proof -
  have r: "readAt t (int i - 1) (int j + 1) = Inr (t ! (i - 1) ! (j + 1))"
          "readAt t (int i + 1) (int j - 1) = Inr (t ! (i + 1) ! (j - 1))"
    by (rule readAt_nat [OF assms(1)]; use assms in simp)+
  have "int (length t) - 1 - int i - int j = 0"
    using assms(4) triangular_length [OF assms(1)] by simp
  then show ?thesis
    using assms(2,3) by (simp add: balancePoint_def Let_def r meanAt_Inr2)
qed

lemma balancePoint_interior:
  assumes "triangular n t" "0 < i" "0 < j" "i + j < n"
  shows "balancePoint t (int i) (int j) v
       = Inr (mean [t ! (i + 1) ! (j - 1), t ! (i + 1) ! j,
                    t ! i ! (j - 1), t ! i ! (j + 1),
                    t ! (i - 1) ! j, t ! (i - 1) ! (j + 1)])"
proof -
  have r: "readAt t (int i + 1) (int j - 1) = Inr (t ! (i + 1) ! (j - 1))"
          "readAt t (int i + 1) (int j) = Inr (t ! (i + 1) ! j)"
          "readAt t (int i) (int j - 1) = Inr (t ! i ! (j - 1))"
          "readAt t (int i) (int j + 1) = Inr (t ! i ! (j + 1))"
          "readAt t (int i - 1) (int j) = Inr (t ! (i - 1) ! j)"
          "readAt t (int i - 1) (int j + 1) = Inr (t ! (i - 1) ! (j + 1))"
    by (rule readAt_nat [OF assms(1)]; use assms in simp)+
  have "int (length t) - 1 - int i - int j \<noteq> 0"
    using assms(4) triangular_length [OF assms(1)] by simp
  then show ?thesis
    using assms(2,3) by (simp add: balancePoint_def Let_def r meanAt_Inr6)
qed

lemma grid_position_cases [consumes 1, case_names corner edge_i edge_j edge_k interior]:
  fixes i j n :: nat
  assumes "i + j \<le> n"
  obtains "(i = 0 \<and> j = 0) \<or> (i = 0 \<and> j = n) \<or> (i = n \<and> j = 0)"
    | "i = 0" "0 < j" "j < n" | "j = 0" "0 < i" "i < n"
    | "0 < i" "0 < j" "i + j = n" | "0 < i" "0 < j" "i + j < n"
proof (cases "i = 0")
  case True
  show ?thesis
  proof (cases "j = 0 \<or> j = n")
    case True with \<open>i = 0\<close> show ?thesis using that(1) by blast
  next
    case False with \<open>i = 0\<close> assms show ?thesis using that(2) by simp
  qed
next
  case False
  show ?thesis
  proof (cases "j = 0")
    case True
    show ?thesis
    proof (cases "i = n")
      case True with \<open>j = 0\<close> show ?thesis using that(1) by blast
    next
      case False with \<open>j = 0\<close> \<open>i \<noteq> 0\<close> assms show ?thesis using that(3) by simp
    qed
  next
    case False
    show ?thesis
    proof (cases "i + j = n")
      case True with \<open>i \<noteq> 0\<close> \<open>j \<noteq> 0\<close> show ?thesis using that(4) by simp
    next
      case False with \<open>i \<noteq> 0\<close> \<open>j \<noteq> 0\<close> assms show ?thesis using that(5) by simp
    qed
  qed
qed

lemma balancePoint_Inr:
  assumes "triangular n t" "i + j \<le> n"
  shows "\<exists>w. balancePoint t (int i) (int j) v = Inr w"
  using assms(2)
proof (cases rule: grid_position_cases)
  case corner then show ?thesis using balancePoint_corner [OF assms] by blast
next
  case edge_i then show ?thesis using balancePoint_edge_i [OF assms(1), of j] by auto
next
  case edge_j then show ?thesis using balancePoint_edge_j [OF assms(1), of i] by auto
next
  case edge_k then show ?thesis using balancePoint_edge_k [OF assms(1)] by blast
next
  case interior then show ?thesis using balancePoint_interior [OF assms(1)] by blast
qed

lemma balance_relaxed:
  assumes "triangular n t"
  shows "balance t = Inr (relaxed t)"
  unfolding balance_def relaxed_def
proof (rule collect_map_Inr)
  fix x assume x: "x \<in> set (enumerate 0 t)"
  obtain i row where ir: "x = (i, row)" by (cases x)
  from x ir have i: "i < length t" and row: "row = t ! i"
    by (auto simp: in_set_enumerate_eq)
  from i have "i \<le> n" using triangular_length [OF assms] by simp
  then have len: "length row = n - i + 1" using triangular_row [OF assms] row by simp
  have "collect (map (\<lambda>(j, v). balancePoint t (int i) (int j) v) (enumerate 0 row))
      = Inr (map (\<lambda>(j, v). projr (balancePoint t (int i) (int j) v)) (enumerate 0 row))"
  proof (rule collect_map_Inr)
    fix y assume y: "y \<in> set (enumerate 0 row)"
    obtain j v where jv: "y = (j, v)" by (cases y)
    from y jv have "j < length row" by (auto simp: in_set_enumerate_eq)
    with len \<open>i \<le> n\<close> have "i + j \<le> n" by simp
    from balancePoint_Inr [OF assms this] obtain w
      where "balancePoint t (int i) (int j) v = Inr w" by blast
    then show "(case y of (j, v) \<Rightarrow> balancePoint t (int i) (int j) v)
        = Inr (case y of (j, v) \<Rightarrow> projr (balancePoint t (int i) (int j) v))"
      by (simp add: jv)
  qed
  then show "(case x of (i, row) \<Rightarrow>
        collect (map (\<lambda>(j, v). balancePoint t (int i) (int j) v) (enumerate 0 row)))
      = Inr (case x of (i, row) \<Rightarrow>
          map (\<lambda>(j, v). projr (balancePoint t (int i) (int j) v)) (enumerate 0 row))"
    by (simp add: ir)
qed

lemma rowLengths_relaxed: "map length (relaxed t) = map length t"
  unfolding relaxed_def by (rule nth_equalityI) (simp_all add: nth_enumerate_eq)

lemma triangular_relaxed: "triangular n t \<Longrightarrow> triangular n (relaxed t)"
  by (simp add: triangular_def rowLengths_relaxed)

lemma relaxed_nth:
  assumes "i < length t" "j < length (t ! i)"
  shows "relaxed t ! i ! j = projr (balancePoint t (int i) (int j) (t ! i ! j))"
  using assms by (simp add: relaxed_def nth_enumerate_eq)

lemma balanced_loop_triangular:
  "triangular n t \<Longrightarrow>
   \<exists>res. balanced_loop nVerts r t = Inr res \<and> triangular n (returned res)
      \<and> passes res \<le> 100 \<and> warnings res = []"
proof (induction nVerts r t rule: balanced_loop.induct)
  case (1 nVerts r t)
  show ?case
  proof (cases "r < 100")
    case False
    then show ?thesis using "1.prems" by (subst balanced_loop.simps) simp
  next
    case True
    note b = balance_relaxed [OF "1.prems"]
    show ?thesis
    proof (cases "avgDist nVerts t (relaxed t) < 1 / 10 ^ 8")
      case True
      with \<open>r < 100\<close> b triangular_relaxed [OF "1.prems"] show ?thesis
        by (subst balanced_loop.simps) simp
    next
      case False
      from "1.IH" [OF \<open>r < 100\<close> b False triangular_relaxed [OF "1.prems"]]
      show ?thesis using \<open>r < 100\<close> b False by (subst balanced_loop.simps) simp
    qed
  qed
qed

lemma triangular_triangulate: "triangular n (triangulate f n 1)"
  by (simp add: triangular_def rowLengths_def rowLengths_triangulate)

lemma triangular_map2: "triangular n t \<Longrightarrow> triangular n (map2' t f)"
  by (simp add: triangular_def rowLengths_map2)

lemma triangular_last: "triangular n t \<Longrightarrow> length (last t) = 1"
proof -
  assume t: "triangular n t"
  then have "t \<noteq> []" using triangular_length by fastforce
  then have "last t = t ! n" using triangular_length [OF t] by (simp add: last_conv_nth)
  then show ?thesis using triangular_row [OF t, of n] by simp
qed

lemma triangular_flat: "triangular n (flat n 1)"
  unfolding flat_def by (rule triangular_triangulate)

lemma triangular_sines: "triangular n (sines n)"
  unfolding sines_def by (rule triangular_map2 [OF triangular_flat])

lemma triangular_sineBased: "triangular n (sineBased n)"
  unfolding sineBased_def by (rule triangular_map2 [OF triangular_sines])

lemma balanced_triangular:
  "\<exists>res. balanced n = Inr res \<and> triangular n (returned res)"
  using balanced_loop_triangular [OF triangular_sineBased]
  unfolding balanced_def Let_def by blast

text \<open>
  Claim C1. For every subdivision order \<open>n\<close> each of the ten generators of the registry
  (\<^verbatim>\<open>flat\<close>, \<^verbatim>\<open>sines\<close>, \<^verbatim>\<open>collapsed\<close>, \<^verbatim>\<open>geodesics\<close>, \<^verbatim>\<open>evenGeodesics\<close>,
  \<^verbatim>\<open>parallels\<close>, \<^verbatim>\<open>sineBased\<close>, \<^verbatim>\<open>sineBased2\<close>, \<^verbatim>\<open>asinBased\<close>, \<^verbatim>\<open>balanced\<close>), called as
  the registry calls it (with the default refinement 1), returns a grid of exactly
  \<open>n + 1\<close> rows whose row \<open>i\<close> has exactly \<open>n - i + 1\<close> points, so that the last row has one
  point (\<open>triangular_length\<close>, \<open>triangular_row\<close> and \<open>triangular_last\<close> spell the predicate
  out); \<^verbatim>\<open>balanced\<close> in particular returns a grid and does not throw.
\<close>

theorem generators_triangular:
  "triangular n (flat n 1) \<and> triangular n (sines n) \<and> triangular n (collapsed n 1)
   \<and> triangular n (geodesics n 1) \<and> triangular n (evenGeodesics n 1)
   \<and> triangular n (parallels n 1) \<and> triangular n (sineBased n)
   \<and> triangular n (sineBased2 n) \<and> triangular n (asinBased n 1)
   \<and> (\<exists>res. balanced n = Inr res \<and> triangular n (returned res))"
proof -
  have "triangular n (sineBased2 n)"
    unfolding sineBased2_def by (rule triangular_map2 [OF triangular_sines])
  moreover have "triangular n (asinBased n 1)"
    unfolding asinBased_def by (rule triangular_map2 [OF triangular_flat])
  moreover have "triangular n (collapsed n 1)" "triangular n (geodesics n 1)"
    "triangular n (evenGeodesics n 1)" "triangular n (parallels n 1)"
    unfolding collapsed_def geodesics_def evenGeodesics_def parallels_def
    by (rule triangular_triangulate)+
  ultimately show ?thesis
    using triangular_flat triangular_sines triangular_sineBased balanced_triangular by blast
qed

subsection \<open>The grids of order 2\<close>

lemma subdivide_2: "subdivide 0 1 2 = [0, 1 / 2, 1]"
  by (simp add: subdivide_def upt_rec [of 0] upt_rec [of 1] upt_rec [of 2] numeral_3_eq_3 numeral_2_eq_2)

lemma subdivide_1: "subdivide 0 1 (Suc 0) = [0, 1]"
  by (simp add: subdivide_def)

lemma subdivide_0: "subdivide 0 1 0 = [0]"
  by (simp add: subdivide_def)

lemma flat_2: "flat 2 1 = [[ex, v3 (1/2) 0 (1/2), ez], [v3 (1/2) (1/2) 0, v3 0 (1/2) (1/2)], [ey]]"
  by (simp add: flat_def triangulate_def subdivide_2 subdivide_1 subdivide_0 enumerate_simps
      lerp_def add_def subtract_def scale_def v3_def ex_def ey_def ez_def)


lemma sin_TAU_4: "sin (TAU / 4) = 1"
  by (simp add: TAU_def)

lemma sin_TAU_8: "sin (TAU / 8) = sqrt 2 / 2"
proof -
  have "TAU / 8 = pi / 4" by (simp add: TAU_def)
  then show ?thesis by (simp only: sin_45)
qed

lemma sines_2: "sines 2 = [[ex, v3 (sqrt 2 / 2) 0 (sqrt 2 / 2), ez],
    [v3 (sqrt 2 / 2) (sqrt 2 / 2) 0, v3 0 (sqrt 2 / 2) (sqrt 2 / 2)], [ey]]"
  unfolding sines_def flat_2
  by (simp add: map2'_def v3_def ex_def ey_def ez_def sin_TAU_4 sin_TAU_8)

lemma sineBased_2: "sineBased 2 = [[ex, v3 (sqrt 2 / 2) 0 (sqrt 2 / 2), ez],
    [v3 (sqrt 2 / 2) (sqrt 2 / 2) 0, v3 0 (sqrt 2 / 2) (sqrt 2 / 2)], [ey]]"
  by (simp add: sineBased_def sines_2 map2'_def normalize'_def vlength_def v3_def ex_def ey_def ez_def Let_def)

subsection \<open>A pass of the relaxation balancer\<close>

lemma balance_fixes_sineBased_2: "balance (sineBased 2) = Inr (sineBased 2)"
proof -
  have s: "sqrt 2 * sqrt 2 = 2" by simp
  have m: "mean [ex, ez] = v3 (sqrt 2 / 2) 0 (sqrt 2 / 2)"
          "mean [ex, ey] = v3 (sqrt 2 / 2) (sqrt 2 / 2) 0"
          "mean [ez, ey] = v3 0 (sqrt 2 / 2) (sqrt 2 / 2)"
    by (simp_all add: mean_def normalize'_def vlength_def add_def scale_def v3_def
        ex_def ey_def ez_def Zero_def Let_def real_div_sqrt)
  show ?thesis
    unfolding sineBased_2 balance_def
    by (simp add: enumerate_simps balancePoint_def readAt_def meanAt_def m Let_def)
qed


text \<open>
  Claim C4, as the code has it. A pass of \<^verbatim>\<open>balance\<close> over a triangular grid of order \<open>n\<close>
  reads inside the grid only and returns a grid of the same shape in which
  \<^item> every interior point (\<open>i > 0\<close>, \<open>j > 0\<close>, \<open>k = n - i - j > 0\<close>) is \<^verbatim>\<open>mean\<close>, the
    normalized sum, of its six neighbours \<open>(i+1, j-1)\<close>, \<open>(i+1, j)\<close>, \<open>(i, j-1)\<close>,
    \<open>(i, j+1)\<close>, \<open>(i-1, j)\<close>, \<open>(i-1, j+1)\<close> of the grid before the pass;
  \<^item> the three corners are unchanged;
  \<^item> every other boundary point is \<^verbatim>\<open>mean\<close>, again the normalized sum and not the
    arithmetic average, of its two neighbours on the same boundary edge.
\<close>

theorem balance_pass:
  assumes "triangular n t"
  shows "\<exists>t'. balance t = Inr t' \<and> triangular n t' \<and>
    (\<forall>i j. i + j \<le> n \<longrightarrow> t' ! i ! j =
      (if 0 < i \<and> 0 < j \<and> i + j < n
       then mean [t ! (i + 1) ! (j - 1), t ! (i + 1) ! j,
                  t ! i ! (j - 1), t ! i ! (j + 1),
                  t ! (i - 1) ! j, t ! (i - 1) ! (j + 1)]
       else if (i = 0 \<and> j = 0) \<or> (i = 0 \<and> j = n) \<or> (i = n \<and> j = 0) then t ! i ! j
       else if i = 0 then mean [t ! 0 ! (j - 1), t ! 0 ! (j + 1)]
       else if j = 0 then mean [t ! (i - 1) ! 0, t ! (i + 1) ! 0]
       else mean [t ! (i - 1) ! (j + 1), t ! (i + 1) ! (j - 1)]))"
proof (intro exI conjI allI impI)
  show "balance t = Inr (relaxed t)" using assms by (rule balance_relaxed)
  show "triangular n (relaxed t)" using assms by (rule triangular_relaxed)
next
  fix i j assume ij: "i + j \<le> n"
  then have "i < length t" "j < length (t ! i)"
    using triangular_length [OF assms] triangular_row [OF assms, of i] by simp_all
  then have r: "relaxed t ! i ! j = projr (balancePoint t (int i) (int j) (t ! i ! j))"
    by (rule relaxed_nth)
  show "relaxed t ! i ! j =
      (if 0 < i \<and> 0 < j \<and> i + j < n
       then mean [t ! (i + 1) ! (j - 1), t ! (i + 1) ! j,
                  t ! i ! (j - 1), t ! i ! (j + 1),
                  t ! (i - 1) ! j, t ! (i - 1) ! (j + 1)]
       else if (i = 0 \<and> j = 0) \<or> (i = 0 \<and> j = n) \<or> (i = n \<and> j = 0) then t ! i ! j
       else if i = 0 then mean [t ! 0 ! (j - 1), t ! 0 ! (j + 1)]
       else if j = 0 then mean [t ! (i - 1) ! 0, t ! (i + 1) ! 0]
       else mean [t ! (i - 1) ! (j + 1), t ! (i + 1) ! (j - 1)])"
    using ij
  proof (cases rule: grid_position_cases)
    case corner
    then have "relaxed t ! i ! j = t ! i ! j"
      using balancePoint_corner [OF assms ij, of "t ! i ! j"] r by simp
    with corner show ?thesis by auto
  next
    case edge_i
    then have "relaxed t ! i ! j = mean [t ! 0 ! (j - 1), t ! 0 ! (j + 1)]"
      using balancePoint_edge_i [OF assms, of j "t ! i ! j"] r by simp
    with edge_i show ?thesis by auto
  next
    case edge_j
    then have "relaxed t ! i ! j = mean [t ! (i - 1) ! 0, t ! (i + 1) ! 0]"
      using balancePoint_edge_j [OF assms, of i "t ! i ! j"] r by simp
    with edge_j show ?thesis by auto
  next
    case edge_k
    then have "relaxed t ! i ! j = mean [t ! (i - 1) ! (j + 1), t ! (i + 1) ! (j - 1)]"
      using balancePoint_edge_k [OF assms, of i j "t ! i ! j"] r by simp
    with edge_k show ?thesis by auto
  next
    case interior
    then have "relaxed t ! i ! j = mean [t ! (i + 1) ! (j - 1), t ! (i + 1) ! j,
                  t ! i ! (j - 1), t ! i ! (j + 1),
                  t ! (i - 1) ! j, t ! (i - 1) ! (j + 1)]"
      using balancePoint_interior [OF assms, of i j "t ! i ! j"] r by simp
    with interior show ?thesis by simp
  qed
qed

theorem balance_pass_witness:
  "triangular 2 (sineBased 2) \<and>
   (\<exists>t'. balance (sineBased 2) = Inr t' \<and> triangular 2 t'
      \<and> t' ! 0 ! 0 = sineBased 2 ! 0 ! 0
      \<and> t' ! 0 ! 1 = mean [sineBased 2 ! 0 ! 0, sineBased 2 ! 0 ! 2]
      \<and> t' ! 1 ! 1 = mean [sineBased 2 ! 0 ! 2, sineBased 2 ! 2 ! 0])
   \<and> triangular 3 (sineBased 3) \<and>
   (\<exists>t'. balance (sineBased 3) = Inr t' \<and> triangular 3 t'
      \<and> t' ! 1 ! 1 = mean [sineBased 3 ! 2 ! 0, sineBased 3 ! 2 ! 1,
                           sineBased 3 ! 1 ! 0, sineBased 3 ! 1 ! 2,
                           sineBased 3 ! 0 ! 1, sineBased 3 ! 0 ! 2])"
proof -
  have t: "triangular 2 (sineBased 2)" by (rule triangular_sineBased)
  from balance_pass [OF t] obtain t' where b: "balance (sineBased 2) = Inr t'"
    and s: "triangular 2 t'"
    and p: "\<And>i j. i + j \<le> 2 \<Longrightarrow> t' ! i ! j =
      (if 0 < i \<and> 0 < j \<and> i + j < 2
       then mean [sineBased 2 ! (i + 1) ! (j - 1), sineBased 2 ! (i + 1) ! j,
                  sineBased 2 ! i ! (j - 1), sineBased 2 ! i ! (j + 1),
                  sineBased 2 ! (i - 1) ! j, sineBased 2 ! (i - 1) ! (j + 1)]
       else if (i = 0 \<and> j = 0) \<or> (i = 0 \<and> j = 2) \<or> (i = 2 \<and> j = 0) then sineBased 2 ! i ! j
       else if i = 0 then mean [sineBased 2 ! 0 ! (j - 1), sineBased 2 ! 0 ! (j + 1)]
       else if j = 0 then mean [sineBased 2 ! (i - 1) ! 0, sineBased 2 ! (i + 1) ! 0]
       else mean [sineBased 2 ! (i - 1) ! (j + 1), sineBased 2 ! (i + 1) ! (j - 1)])"
    by blast
  have "t' ! 0 ! 0 = sineBased 2 ! 0 ! 0" using p [of 0 0] by simp
  moreover have "t' ! 0 ! 1 = mean [sineBased 2 ! 0 ! 0, sineBased 2 ! 0 ! 2]"
    using p [of 0 1] by (simp add: numeral_2_eq_2)
  moreover have "t' ! 1 ! 1 = mean [sineBased 2 ! 0 ! 2, sineBased 2 ! 2 ! 0]"
    using p [of 1 1] by (simp add: numeral_2_eq_2)
  ultimately have two: "\<exists>t'. balance (sineBased 2) = Inr t' \<and> triangular 2 t'
      \<and> t' ! 0 ! 0 = sineBased 2 ! 0 ! 0
      \<and> t' ! 0 ! 1 = mean [sineBased 2 ! 0 ! 0, sineBased 2 ! 0 ! 2]
      \<and> t' ! 1 ! 1 = mean [sineBased 2 ! 0 ! 2, sineBased 2 ! 2 ! 0]"
    using b s by blast
  have t3: "triangular 3 (sineBased 3)" by (rule triangular_sineBased)
  from balance_pass [OF t3] obtain u where b3: "balance (sineBased 3) = Inr u"
    and s3: "triangular 3 u"
    and p3: "\<And>i j. i + j \<le> 3 \<Longrightarrow> u ! i ! j =
      (if 0 < i \<and> 0 < j \<and> i + j < 3
       then mean [sineBased 3 ! (i + 1) ! (j - 1), sineBased 3 ! (i + 1) ! j,
                  sineBased 3 ! i ! (j - 1), sineBased 3 ! i ! (j + 1),
                  sineBased 3 ! (i - 1) ! j, sineBased 3 ! (i - 1) ! (j + 1)]
       else if (i = 0 \<and> j = 0) \<or> (i = 0 \<and> j = 3) \<or> (i = 3 \<and> j = 0) then sineBased 3 ! i ! j
       else if i = 0 then mean [sineBased 3 ! 0 ! (j - 1), sineBased 3 ! 0 ! (j + 1)]
       else if j = 0 then mean [sineBased 3 ! (i - 1) ! 0, sineBased 3 ! (i + 1) ! 0]
       else mean [sineBased 3 ! (i - 1) ! (j + 1), sineBased 3 ! (i + 1) ! (j - 1)])"
    by blast
  have "u ! 1 ! 1 = mean [sineBased 3 ! 2 ! 0, sineBased 3 ! 2 ! 1,
                           sineBased 3 ! 1 ! 0, sineBased 3 ! 1 ! 2,
                           sineBased 3 ! 0 ! 1, sineBased 3 ! 0 ! 2]"
    using p3 [of 1 1] by (simp add: numeral_2_eq_2)
  then have three: "\<exists>t'. balance (sineBased 3) = Inr t' \<and> triangular 3 t'
      \<and> t' ! 1 ! 1 = mean [sineBased 3 ! 2 ! 0, sineBased 3 ! 2 ! 1,
                           sineBased 3 ! 1 ! 0, sineBased 3 ! 1 ! 2,
                           sineBased 3 ! 0 ! 1, sineBased 3 ! 0 ! 2]"
    using b3 s3 by blast
  from t two t3 three show ?thesis by blast
qed

text \<open>
  The claim speaks of the average of the two boundary neighbours. On the grid
  \<^verbatim>\<open>sineBased(2)\<close>, which a pass maps to itself, the point \<open>(0, 1)\<close> lies between the
  corners \<open>(0, 0)\<close> and \<open>(0, 2)\<close> and is not half their sum.
\<close>

theorem balance_edge_not_average:
  "balance (sineBased 2) = Inr (sineBased 2) \<and>
   sineBased 2 ! 0 ! 1 \<noteq> scale (add (sineBased 2 ! 0 ! 0) (sineBased 2 ! 0 ! 2)) (1 / 2)"
proof -
  have "sqrt 2 \<noteq> 1" by simp
  then have "sineBased 2 ! 0 ! 1 \<noteq> scale (add (sineBased 2 ! 0 ! 0) (sineBased 2 ! 0 ! 2)) (1 / 2)"
    by (simp add: sineBased_2 scale_def add_def v3_def ex_def ez_def)
  then show ?thesis using balance_fixes_sineBased_2 by simp
qed
subsection \<open>The loop of the sine-ratio solver\<close>

text \<open>
  The statements of the loop body compute what the step of the specification asks
  for.
\<close>

lemma barycentric_code: "barycentric v = baryNormalizeInPlace v"
  by (simp add: barycentric_def baryNormalizeInPlace_def baryNorm_def scale_def v3_def)

lemma arcsines_code: "arcsines g = asin3 g"
  by (simp add: arcsines_def asin3_def abs_le_iff)

lemma solverOffset_code: "solverOffset p g = angleOffset p g"
  by (simp add: solverOffset_def solverAngles_def angleOffset_def arcsines_code barycentric_code
      subtract_def split: option.splits)

lemma solverStep_code:
  "solverStep p g = (case angleOffset p g of None \<Rightarrow> None | Some offset \<Rightarrow> nextGuess g offset)"
  by (simp add: solverStep_def solverOffset_code nextGuess_def barycentric_code subtract_def
      split: option.splits)

lemma withinTolerance_code:
  "withinTolerance p g
     = (case angleOffset p g of None \<Rightarrow> False | Some offset \<Rightarrow> vlength offset < 1 / 10 ^ 10)"
  by (simp add: withinTolerance_def solverOffset_code vlength_def power2_eq_square
      split: option.splits)

lemma solverIterate_None: "solverIterate p m None = None"
  by (induction m) simp_all

lemma solverIterate_shift:
  "solverIterate p (Suc m) (Some g) = solverIterate p m (solverStep p g)"
  by simp

lemma findSineRatio_loop_run:
  "i \<le> 30 \<Longrightarrow>
   (\<exists>m g. i + m < 30 \<and> solverIterate p m (Some guess) = Some g \<and> withinTolerance p g
      \<and> (\<forall>m' < m. \<exists>g'. solverIterate p m' (Some guess) = Some g' \<and> \<not> withinTolerance p g')
      \<and> findSineRatio_loop p i guess = \<lparr>returned = Some g, passes = i + m + 1, warnings = []\<rparr>)
   \<or> ((\<forall>m. i + m < 30 \<longrightarrow>
          (case solverIterate p m (Some guess) of None \<Rightarrow> True | Some g' \<Rightarrow> \<not> withinTolerance p g'))
      \<and> findSineRatio_loop p i guess = iterationFailed (solverIterate p (30 - i) (Some guess)))"
proof (induction p i guess rule: findSineRatio_loop.induct)
  case (1 p i guess)
  show ?case
  proof (cases "i < 30")
    case False
    with "1.prems" have "i = 30" by simp
    then show ?thesis by (subst findSineRatio_loop.simps) simp
  next
    case True
    show ?thesis
    proof (cases "angleOffset p guess")
      case None
      then have step: "solverStep p guess = None" by (simp add: solverStep_code)
      have *: "\<And>m. solverIterate p m (Some guess) = (if m = 0 then Some guess else None)"
      proof -
        fix m show "solverIterate p m (Some guess) = (if m = 0 then Some guess else None)"
          by (cases m) (simp_all add: step solverIterate_None)
      qed
      have nt: "\<not> withinTolerance p guess" using None by (simp add: withinTolerance_code)
      have "findSineRatio_loop p i guess = iterationFailed None"
        using True None by (subst findSineRatio_loop.simps) simp
      moreover have "solverIterate p (30 - i) (Some guess) = None" using True by (simp add: *)
      ultimately show ?thesis using nt by (auto simp: *)
    next
      case (Some offset)
      show ?thesis
      proof (cases "vlength offset < 1 / 10 ^ 10")
        case True
        then have wt: "withinTolerance p guess" using Some by (simp add: withinTolerance_code)
        have "findSineRatio_loop p i guess = \<lparr>returned = Some guess, passes = i + 0 + 1, warnings = []\<rparr>"
          using \<open>i < 30\<close> Some True by (subst findSineRatio_loop.simps) simp
        with wt \<open>i < 30\<close> show ?thesis
          by (intro disjI1 exI [of _ 0] exI [of _ guess]) simp
      next
        case False
        then have nt: "\<not> withinTolerance p guess" using Some by (simp add: withinTolerance_code)
        show ?thesis
        proof (cases "nextGuess guess offset")
          case None
          then have step: "solverStep p guess = None" using Some by (simp add: solverStep_code)
          have *: "\<And>m. solverIterate p m (Some guess) = (if m = 0 then Some guess else None)"
          proof -
            fix m show "solverIterate p m (Some guess) = (if m = 0 then Some guess else None)"
              by (cases m) (simp_all add: step solverIterate_None)
          qed
          have "findSineRatio_loop p i guess = iterationFailed None"
            using \<open>i < 30\<close> Some False None by (subst findSineRatio_loop.simps) simp
          moreover have "solverIterate p (30 - i) (Some guess) = None" using \<open>i < 30\<close> by (simp add: *)
          ultimately show ?thesis using nt by (auto simp: *)
        next
          case (Some guess')
          then have step: "solverStep p guess = Some guess'"
            using \<open>angleOffset p guess = Some offset\<close> by (simp add: solverStep_code)
          have unf: "findSineRatio_loop p i guess = findSineRatio_loop p (i + 1) guess'"
            using \<open>i < 30\<close> \<open>angleOffset p guess = Some offset\<close> False Some
            by (subst findSineRatio_loop.simps) simp
          have sh: "\<And>m. solverIterate p (Suc m) (Some guess) = solverIterate p m (Some guess')"
            by (simp add: step)
          from "1.IH" [OF \<open>i < 30\<close> \<open>angleOffset p guess = Some offset\<close> False Some]
          have IH: "(\<exists>m g. i + 1 + m < 30 \<and> solverIterate p m (Some guess') = Some g \<and> withinTolerance p g
              \<and> (\<forall>m' < m. \<exists>g'. solverIterate p m' (Some guess') = Some g' \<and> \<not> withinTolerance p g')
              \<and> findSineRatio_loop p (i + 1) guess' = \<lparr>returned = Some g, passes = i + 1 + m + 1, warnings = []\<rparr>)
           \<or> ((\<forall>m. i + 1 + m < 30 \<longrightarrow>
                (case solverIterate p m (Some guess') of None \<Rightarrow> True | Some g' \<Rightarrow> \<not> withinTolerance p g'))
              \<and> findSineRatio_loop p (i + 1) guess' = iterationFailed (solverIterate p (30 - (i + 1)) (Some guess')))"
            using \<open>i < 30\<close> by simp
          then show ?thesis
          proof
            assume "\<exists>m g. i + 1 + m < 30 \<and> solverIterate p m (Some guess') = Some g \<and> withinTolerance p g
              \<and> (\<forall>m' < m. \<exists>g'. solverIterate p m' (Some guess') = Some g' \<and> \<not> withinTolerance p g')
              \<and> findSineRatio_loop p (i + 1) guess' = \<lparr>returned = Some g, passes = i + 1 + m + 1, warnings = []\<rparr>"
            then obtain m g where m: "i + 1 + m < 30" "solverIterate p m (Some guess') = Some g"
              "withinTolerance p g"
              "\<And>m'. m' < m \<Longrightarrow> \<exists>g'. solverIterate p m' (Some guess') = Some g' \<and> \<not> withinTolerance p g'"
              "findSineRatio_loop p (i + 1) guess' = \<lparr>returned = Some g, passes = i + 1 + m + 1, warnings = []\<rparr>"
              by blast
            have earlier: "\<exists>g'. solverIterate p m' (Some guess) = Some g' \<and> \<not> withinTolerance p g'"
              if "m' < Suc m" for m'
            proof (cases m')
              case 0 then show ?thesis using nt by simp
            next
              case (Suc k)
              with that have "k < m" by simp
              from m(4) [OF this] show ?thesis unfolding Suc sh .
            qed
            have "i + Suc m < 30" using m(1) by simp
            moreover have "solverIterate p (Suc m) (Some guess) = Some g" using m(2) sh by simp
            moreover have "findSineRatio_loop p i guess
                = \<lparr>returned = Some g, passes = i + Suc m + 1, warnings = []\<rparr>"
              using unf m(5) by simp
            ultimately show ?thesis using m(3) earlier by blast
          next
            assume a: "(\<forall>m. i + 1 + m < 30 \<longrightarrow>
                (case solverIterate p m (Some guess') of None \<Rightarrow> True | Some g' \<Rightarrow> \<not> withinTolerance p g'))
              \<and> findSineRatio_loop p (i + 1) guess' = iterationFailed (solverIterate p (30 - (i + 1)) (Some guess'))"
            have never: "case solverIterate p m (Some guess) of None \<Rightarrow> True | Some g' \<Rightarrow> \<not> withinTolerance p g'"
              if "i + m < 30" for m
            proof (cases m)
              case 0 then show ?thesis using nt by simp
            next
              case (Suc k)
              with that have "i + 1 + k < 30" by simp
              with a show ?thesis unfolding Suc sh by blast
            qed
            have "30 - i = Suc (30 - (i + 1))" using \<open>i < 30\<close> by simp
            then have "solverIterate p (30 - i) (Some guess) = solverIterate p (30 - (i + 1)) (Some guess')"
              using sh by simp
            then have "findSineRatio_loop p i guess = iterationFailed (solverIterate p (30 - i) (Some guess))"
              using unf a by simp
            with never show ?thesis by blast
          qed
        qed
      qed
    qed
  qed
qed

lemma vlength_nonneg: "0 \<le> vlength a"
  by (simp add: vlength_def)

lemma vlength_zero_iff: "vlength a = 0 \<longleftrightarrow> vx a = 0 \<and> vy a = 0 \<and> vz a = 0"
proof -
  have "vx a * vx a + vy a * vy a + vz a * vz a = 0 \<longleftrightarrow> vx a = 0 \<and> vy a = 0 \<and> vz a = 0"
    by (metis add_nonneg_eq_0_iff add_nonneg_nonneg mult_eq_0_iff zero_le_square)
  then show ?thesis by (simp add: vlength_def)
qed

lemma vlength_scale: "vlength (scale a s) = \<bar>s\<bar> * vlength a"
proof -
  have "vx a * s * (vx a * s) + vy a * s * (vy a * s) + vz a * s * (vz a * s)
      = s\<^sup>2 * (vx a * vx a + vy a * vy a + vz a * vz a)"
    by (simp add: algebra_simps power2_eq_square)
  then show ?thesis
    by (simp add: vlength_def scale_def v3_def real_sqrt_mult)
qed

lemma normalize'_unit:
  assumes "vlength a \<noteq> 0" shows "vlength (normalize' a) = 1"
proof (cases "vlength a = 1")
  case True
  then show ?thesis by (simp add: normalize'_def)
next
  case False
  have "0 < vlength a" using assms vlength_nonneg [of a] by simp
  then have "vlength (scale a (1 / vlength a)) = 1" by (simp add: vlength_scale)
  with False assms show ?thesis by (simp add: normalize'_def Let_def)
qed

lemma baryNorm_nonzero_vlength: "baryNorm a \<noteq> 0 \<Longrightarrow> vlength a \<noteq> 0"
  by (auto simp: vlength_zero_iff baryNorm_def)

lemma baryNorm_subtract: "baryNorm (subtract a b) = baryNorm a - baryNorm b"
  by (simp add: baryNorm_def subtract_def v3_def)

lemma baryNorm_scale: "baryNorm (scale a s) = baryNorm a * s"
  by (simp add: baryNorm_def scale_def v3_def algebra_simps)

lemma baryNormalizeInPlace_Some:
  "baryNormalizeInPlace a = Some b \<Longrightarrow> baryNorm b = 1"
  by (auto simp: baryNormalizeInPlace_def baryNorm_scale split: if_splits)

lemma angleOffset_baryNorm:
  "angleOffset p g = Some offset \<Longrightarrow> baryNorm offset = 1 - baryNorm p"
  by (auto simp: angleOffset_def baryNorm_subtract dest: baryNormalizeInPlace_Some
      split: option.splits)

lemma solverStep_unit:
  assumes "solverStep p g = Some g'" "baryNorm p = 1"
  shows "vlength g' = 1"
proof -
  from assms(1) obtain offset b where o: "angleOffset p g = Some offset"
    and b: "baryNormalizeInPlace g = Some b" and g': "g' = normalize' (subtract b offset)"
    by (auto simp: solverStep_code nextGuess_def split: option.splits)
  have "baryNorm (subtract b offset) = 1"
    using angleOffset_baryNorm [OF o] baryNormalizeInPlace_Some [OF b] assms(2)
    by (simp add: baryNorm_subtract)
  then have "vlength (subtract b offset) \<noteq> 0" by (intro baryNorm_nonzero_vlength) simp
  then show ?thesis unfolding g' by (rule normalize'_unit)
qed

lemma solverIterate_unit:
  "solverIterate p m (Some g) = Some g' \<Longrightarrow> vlength g = 1 \<Longrightarrow> baryNorm p = 1 \<Longrightarrow> vlength g' = 1"
proof (induction m arbitrary: g)
  case 0
  then show ?case by simp
next
  case (Suc m)
  show ?case
  proof (cases "solverStep p g")
    case None
    with Suc.prems(1) show ?thesis by (simp add: solverIterate_None)
  next
    case (Some h)
    with Suc.prems(1) have "solverIterate p m (Some h) = Some g'" by simp
    moreover have "vlength h = 1" using Some Suc.prems(3) by (rule solverStep_unit)
    ultimately show ?thesis using Suc.IH Suc.prems(3) by blast
  qed
qed

lemma sin_quarter_nonneg: "0 \<le> a \<Longrightarrow> a \<le> 1 \<Longrightarrow> 0 \<le> sin (TAU / 4 * a)"
proof -
  assume a: "0 \<le> a" "a \<le> 1"
  have "TAU / 4 * a \<le> pi / 2 * 1" unfolding TAU_def using a by (intro mult_mono) simp_all
  then have "TAU / 4 * a \<le> pi" using pi_gt_zero by linarith
  moreover have "0 \<le> TAU / 4 * a" using a by (simp add: TAU_def)
  ultimately show ?thesis by (simp add: sin_ge_zero)
qed

lemma sin_quarter_pos: "0 < a \<Longrightarrow> a \<le> 1 \<Longrightarrow> 0 < sin (TAU / 4 * a)"
proof -
  assume a: "0 < a" "a \<le> 1"
  have "TAU / 4 * a \<le> pi / 2 * 1" unfolding TAU_def using a by (intro mult_mono) simp_all
  then have "TAU / 4 * a < pi" using pi_gt_zero by linarith
  moreover have "0 < TAU / 4 * a" using a by (simp add: TAU_def)
  ultimately show ?thesis by (simp add: sin_gt_zero)
qed

lemma sineGuess_unit:
  assumes "0 \<le> vx p" "0 \<le> vy p" "0 \<le> vz p" "baryNorm p = 1"
  shows "vlength (sineGuess p) = 1"
proof -
  let ?w = "v3 (sin (TAU / 4 * vx p)) (sin (TAU / 4 * vy p)) (sin (TAU / 4 * vz p))"
  have le: "vx p \<le> 1" "vy p \<le> 1" "vz p \<le> 1" using assms by (simp_all add: baryNorm_def)
  have "0 < vx p \<or> 0 < vy p \<or> 0 < vz p" using assms by (auto simp: baryNorm_def)
  then have "0 < sin (TAU / 4 * vx p) \<or> 0 < sin (TAU / 4 * vy p) \<or> 0 < sin (TAU / 4 * vz p)"
    using le sin_quarter_pos by blast
  then have "vlength ?w \<noteq> 0" by (auto simp: vlength_zero_iff v3_def)
  then show ?thesis unfolding sineGuess_def by (rule normalize'_unit)
qed

lemma find_upt_first:
  assumes "m < n" "P m" "\<forall>m' < m. \<not> P m'"
  shows "find P [0 ..< n] = Some m"
  unfolding find_Some_iff using assms by (intro exI [of _ m]) simp

lemma find_upt_none: "\<forall>m < n. \<not> P m \<Longrightarrow> find P [0 ..< n] = None"
  by (simp add: find_None_iff)

lemma solverRun_success:
  assumes "m < 30" "solverIterate p m (Some g) = Some g'" "withinTolerance p g'"
    "\<forall>m' < m. \<not> succeedsAt p g m'"
  shows "solverRun p g = \<lparr>returned = Some g', passes = m + 1, warnings = []\<rparr>"
proof -
  have "succeedsAt p g m" using assms(2,3) by (simp add: succeedsAt_def)
  with assms(1) have "find (succeedsAt p g) [0 ..< 30] = Some m"
    using assms(4) by (rule find_upt_first)
  then show ?thesis by (simp add: solverRun_def assms(2))
qed

lemma findSineRatio_loop_solverRun: "findSineRatio_loop p 0 guess = solverRun p guess"
proof -
  from findSineRatio_loop_run [of 0 p guess]
  consider m g where "m < 30" "solverIterate p m (Some guess) = Some g" "withinTolerance p g"
      "\<forall>m' < m. \<exists>g'. solverIterate p m' (Some guess) = Some g' \<and> \<not> withinTolerance p g'"
      "findSineRatio_loop p 0 guess = \<lparr>returned = Some g, passes = m + 1, warnings = []\<rparr>"
    | "\<forall>m < 30. (case solverIterate p m (Some guess) of None \<Rightarrow> True
          | Some g' \<Rightarrow> \<not> withinTolerance p g')"
      "findSineRatio_loop p 0 guess = iterationFailed (solverIterate p 30 (Some guess))"
    by auto
  then show ?thesis
  proof cases
    case 1
    from 1(4) have "\<forall>m' < m. \<not> succeedsAt p guess m'" by (auto simp: succeedsAt_def)
    with 1(1-3) have "solverRun p guess = \<lparr>returned = Some g, passes = m + 1, warnings = []\<rparr>"
      by (rule solverRun_success)
    with 1(5) show ?thesis by simp
  next
    case 2
    from 2(1) have "\<forall>m < 30. \<not> succeedsAt p guess m"
      by (auto simp: succeedsAt_def split: option.splits)
    then have "find (succeedsAt p guess) [0 ..< 30] = None" by (rule find_upt_none)
    with 2(2) show ?thesis by (simp add: solverRun_def iterationFailed_def)
  qed
qed

lemma solverRun_warnings:
  assumes "warnings (solverRun p g) = []"
  shows "\<exists>m g'. m < 30 \<and> solverIterate p m (Some g) = Some g' \<and> withinTolerance p g'
     \<and> solverRun p g = \<lparr>returned = Some g', passes = m + 1, warnings = []\<rparr>"
proof (cases "find (succeedsAt p g) [0 ..< 30]")
  case None
  with assms show ?thesis by (simp add: solverRun_def)
next
  case (Some m)
  then have "m < 30" "succeedsAt p g m" by (auto simp: find_Some_iff)
  then obtain g' where "solverIterate p m (Some g) = Some g'" "withinTolerance p g'"
    by (auto simp: succeedsAt_def split: option.splits)
  with Some \<open>m < 30\<close> show ?thesis by (auto simp: solverRun_def)
qed

lemma withinTolerance_angles:
  "withinTolerance p g \<Longrightarrow>
   \<exists>angles. solverAngles g = Some angles \<and> vlength (subtract angles p) < 1 / 10 ^ 10"
  by (auto simp: withinTolerance_def solverOffset_def vlength_def subtract_def v3_def
      power2_eq_square split: option.splits)

text \<open>
  Claim C3. Let \<open>p\<close> be a point of the octahedron face: its coordinates are not negative
  and sum to 1. The loop of \<^verbatim>\<open>findSineRatio\<close>, entered with any first guess, makes the run
  the specification describes (\<open>solverRun\<close>): it repeats the step \<open>solverStep\<close>, in which
  \<open>angles\<close> is the barycentric normalization of the arcsines of the guess,
  \<open>offset = angles - p\<close>, and the next guess is
  \<open>normalize (barycentric-normalize guess - offset)\<close>; it succeeds at the first guess
  whose offset is shorter than \<open>10\<^sup>-\<^sup>1\<^sup>0\<close>, and gives up with a warning after 30 passes.
  \<^verbatim>\<open>findSineRatio\<close> is that run from the \<^verbatim>\<open>sineBased\<close> estimate. Whenever it returns
  through the success branch, that is without a warning, the guess it returns is a unit
  vector, its arcsines and their barycentric normalization are finite, and that
  normalization differs from \<open>p\<close> by less than \<open>10\<^sup>-\<^sup>1\<^sup>0\<close> in Euclidean norm.
\<close>

theorem findSineRatio_iterates:
  assumes "0 \<le> vx p" "0 \<le> vy p" "0 \<le> vz p" "baryNorm p = 1"
  shows "(\<forall>g. findSineRatio_loop p 0 g = solverRun p g)
    \<and> findSineRatio p = solverRun p (sineGuess p)
    \<and> (warnings (findSineRatio p) = [] \<longrightarrow>
         (\<exists>g angles. returned (findSineRatio p) = Some g \<and> vlength g = 1
            \<and> solverAngles g = Some angles \<and> vlength (subtract angles p) < 1 / 10 ^ 10))"
proof (intro conjI allI impI)
  show "findSineRatio_loop p 0 g = solverRun p g" for g by (rule findSineRatio_loop_solverRun)
  show run: "findSineRatio p = solverRun p (sineGuess p)"
    unfolding findSineRatio_def by (rule findSineRatio_loop_solverRun)
  assume "warnings (findSineRatio p) = []"
  then have "warnings (solverRun p (sineGuess p)) = []" by (simp add: run)
  from solverRun_warnings [OF this] obtain m g
    where m: "solverIterate p m (Some (sineGuess p)) = Some g" "withinTolerance p g"
      "solverRun p (sineGuess p) = \<lparr>returned = Some g, passes = m + 1, warnings = []\<rparr>"
    by blast
  have "vlength g = 1"
    using m(1) sineGuess_unit [OF assms(1-4)] assms(4) by (rule solverIterate_unit)
  moreover from withinTolerance_angles [OF m(2)] obtain angles
    where "solverAngles g = Some angles" "vlength (subtract angles p) < 1 / 10 ^ 10" by blast
  ultimately show "\<exists>g angles. returned (findSineRatio p) = Some g \<and> vlength g = 1
      \<and> solverAngles g = Some angles \<and> vlength (subtract angles p) < 1 / 10 ^ 10"
    using m(3) run by auto
qed


text \<open>
  The midpoint of an edge of the face is such a point. From the \<^verbatim>\<open>sineBased\<close> estimate the
  first guess already passes the test. Entered at the corner \<open>ex\<close>, the loop fails the
  test (the offset has length \<open>\<surd>(1/2)\<close>), makes the update to \<open>(\<surd>2/2, 0, \<surd>2/2)\<close>, and
  succeeds in its second pass.
\<close>

lemma arcsin_sqrt2_half: "arcsin (sqrt 2 / 2) = pi / 4"
proof -
  have "arcsin (sin (pi / 4)) = pi / 4" by (rule arcsin_sin) simp_all
  then show ?thesis by (simp only: sin_45)
qed

lemma sineGuess_edge_midpoint: "sineGuess (v3 (1 / 2) 0 (1 / 2)) = v3 (sqrt 2 / 2) 0 (sqrt 2 / 2)"
  by (simp add: sineGuess_def v3_def sin_TAU_8 normalize'_def vlength_def Let_def)

lemma angleOffset_edge_midpoint:
  "angleOffset (v3 (1 / 2) 0 (1 / 2)) (v3 (sqrt 2 / 2) 0 (sqrt 2 / 2)) = Some Zero"
proof -
  have "\<bar>sqrt 2 / 2\<bar> \<le> 1" by (simp add: real_le_lsqrt)
  then show ?thesis
    by (simp add: angleOffset_def asin3_def v3_def arcsin_sqrt2_half baryNormalizeInPlace_def
        baryNorm_def scale_def subtract_def Zero_def)
qed

lemma findSineRatio_edge_midpoint:
  "findSineRatio (v3 (1 / 2) 0 (1 / 2))
     = \<lparr>returned = Some (v3 (sqrt 2 / 2) 0 (sqrt 2 / 2)), passes = 1, warnings = []\<rparr>"
proof -
  have "vlength Zero < 1 / 10 ^ 10" by (simp add: vlength_def Zero_def v3_def)
  then show ?thesis
    unfolding findSineRatio_def sineGuess_edge_midpoint
    by (subst findSineRatio_loop.simps) (simp add: angleOffset_edge_midpoint)
qed

lemma solverOffset_corner:
  "solverOffset (v3 (1 / 2) 0 (1 / 2)) ex = Some (v3 (1 / 2) 0 (- (1 / 2)))"
  by (simp add: solverOffset_def solverAngles_def arcsines_def barycentric_def ex_def v3_def)

lemma not_withinTolerance_corner: "\<not> withinTolerance (v3 (1 / 2) 0 (1 / 2)) ex"
proof -
  have "(1 / 10 ^ 10 :: real) \<le> sqrt (1 / 2)" by (rule real_le_rsqrt) (simp add: power2_eq_square)
  then show ?thesis
    unfolding withinTolerance_def solverOffset_corner
    by (simp add: v3_def power2_eq_square)
qed

lemma solverStep_corner:
  "solverStep (v3 (1 / 2) 0 (1 / 2)) ex = Some (v3 (sqrt 2 / 2) 0 (sqrt 2 / 2))"
proof -
  have l: "vlength (v3 (1 / 2) 0 (1 / 2)) = sqrt 2 / 2"
  proof -
    have "sqrt (1 / 2) = sqrt 2 / 2" by (simp add: real_sqrt_divide real_div_sqrt)
    then show ?thesis by (simp add: vlength_def v3_def)
  qed
  have ne: "sqrt 2 / 2 \<noteq> (1::real)"
  proof
    assume "sqrt 2 / 2 = (1::real)"
    then have "sqrt 2 = 2" by simp
    then have "(sqrt 2)\<^sup>2 = 2\<^sup>2" by simp
    then show False by simp
  qed
  have n: "normalize' (v3 (1 / 2) 0 (1 / 2)) = v3 (sqrt 2 / 2) 0 (sqrt 2 / 2)"
    using ne by (simp add: normalize'_def l Let_def) (simp add: scale_def v3_def real_div_sqrt)
  have b: "barycentric ex = Some ex" by (simp add: barycentric_def ex_def v3_def)
  have "v3 (vx ex - vx (v3 (1 / 2) 0 (- (1 / 2)))) (vy ex - vy (v3 (1 / 2) 0 (- (1 / 2))))
      (vz ex - vz (v3 (1 / 2) 0 (- (1 / 2)))) = v3 (1 / 2) 0 (1 / 2)"
    by (simp add: ex_def v3_def)
  then show ?thesis
    unfolding solverStep_def solverOffset_corner b by (simp add: n)
qed

lemma withinTolerance_edge_midpoint:
  "withinTolerance (v3 (1 / 2) 0 (1 / 2)) (v3 (sqrt 2 / 2) 0 (sqrt 2 / 2))"
  unfolding withinTolerance_code angleOffset_edge_midpoint
  by (simp add: vlength_def Zero_def v3_def)

lemma solverRun_corner:
  "solverRun (v3 (1 / 2) 0 (1 / 2)) ex
     = \<lparr>returned = Some (v3 (sqrt 2 / 2) 0 (sqrt 2 / 2)), passes = 2, warnings = []\<rparr>"
proof -
  let ?p = "v3 (1 / 2) 0 (1 / 2)"
  have "solverIterate ?p 1 (Some ex) = Some (v3 (sqrt 2 / 2) 0 (sqrt 2 / 2))"
    by (simp add: solverStep_corner)
  moreover have "\<forall>m' < 1. \<not> succeedsAt ?p ex m'"
    by (simp add: succeedsAt_def not_withinTolerance_corner)
  ultimately have "solverRun ?p ex
      = \<lparr>returned = Some (v3 (sqrt 2 / 2) 0 (sqrt 2 / 2)), passes = 1 + 1, warnings = []\<rparr>"
    using withinTolerance_edge_midpoint by (intro solverRun_success) simp_all
  then show ?thesis by simp
qed

theorem findSineRatio_iterates_witness:
  "0 \<le> vx (v3 (1 / 2) 0 (1 / 2)) \<and> 0 \<le> vy (v3 (1 / 2) 0 (1 / 2)) \<and> 0 \<le> vz (v3 (1 / 2) 0 (1 / 2))
   \<and> baryNorm (v3 (1 / 2) 0 (1 / 2)) = 1
   \<and> findSineRatio_loop (v3 (1 / 2) 0 (1 / 2)) 0 ex
       = \<lparr>returned = Some (v3 (sqrt 2 / 2) 0 (sqrt 2 / 2)), passes = 2, warnings = []\<rparr>
   \<and> warnings (findSineRatio (v3 (1 / 2) 0 (1 / 2))) = []
   \<and> (\<exists>g angles.
        returned (findSineRatio (v3 (1 / 2) 0 (1 / 2))) = Some g \<and> vlength g = 1
      \<and> solverAngles g = Some angles
      \<and> vlength (subtract angles (v3 (1 / 2) 0 (1 / 2))) < 1 / 10 ^ 10)"
proof -
  have h: "0 \<le> vx (v3 (1 / 2) 0 (1 / 2))" "0 \<le> vy (v3 (1 / 2) 0 (1 / 2))"
    "0 \<le> vz (v3 (1 / 2) 0 (1 / 2))" "baryNorm (v3 (1 / 2) 0 (1 / 2)) = 1"
    by (simp_all add: v3_def baryNorm_def)
  have w: "warnings (findSineRatio (v3 (1 / 2) 0 (1 / 2))) = []"
    by (simp add: findSineRatio_edge_midpoint)
  from findSineRatio_iterates [OF h] have
    a: "findSineRatio_loop (v3 (1 / 2) 0 (1 / 2)) 0 ex = solverRun (v3 (1 / 2) 0 (1 / 2)) ex"
    and c: "warnings (findSineRatio (v3 (1 / 2) 0 (1 / 2))) = [] \<longrightarrow>
      (\<exists>g angles. returned (findSineRatio (v3 (1 / 2) 0 (1 / 2))) = Some g \<and> vlength g = 1
        \<and> solverAngles g = Some angles
        \<and> vlength (subtract angles (v3 (1 / 2) 0 (1 / 2))) < 1 / 10 ^ 10)"
    by blast+
  from c w have "\<exists>g angles. returned (findSineRatio (v3 (1 / 2) 0 (1 / 2))) = Some g \<and> vlength g = 1
        \<and> solverAngles g = Some angles
        \<and> vlength (subtract angles (v3 (1 / 2) 0 (1 / 2))) < 1 / 10 ^ 10" by (rule mp)
  with h w a [unfolded solverRun_corner] show ?thesis by (intro conjI)
qed


subsection \<open>Running out of passes\<close>

lemma passesOf_0: "passesOf 0 t = t"
  by (simp add: passesOf_def)

lemma passesOf_Suc: "passesOf (Suc m) t = passesOf m (relaxed t)"
  by (simp add: passesOf_def funpow_swap1)

lemma triangular_passesOf: "triangular n t \<Longrightarrow> triangular n (passesOf m t)"
  by (induction m) (simp_all add: passesOf_def triangular_relaxed)


lemma balanced_loop_run:
  "triangular n t \<Longrightarrow> r \<le> 100 \<Longrightarrow>
   \<exists>m. r + m \<le> 100 \<and> (r < 100 \<longrightarrow> 0 < m)
     \<and> balanced_loop nVerts r t = Inr \<lparr>returned = passesOf m t, passes = r + m, warnings = []\<rparr>
     \<and> (r + m < 100 \<longrightarrow> avgDist nVerts (passesOf (m - 1) t) (passesOf m t) < 1 / 10 ^ 8)
     \<and> (\<forall>m'. m' + 1 < m \<longrightarrow> \<not> avgDist nVerts (passesOf m' t) (passesOf (m' + 1) t) < 1 / 10 ^ 8)"
proof (induction nVerts r t rule: balanced_loop.induct)
  case (1 nVerts r t)
  show ?case
  proof (cases "r < 100")
    case False
    with "1.prems" have "r = 100" by simp
    then have "balanced_loop nVerts r t = Inr \<lparr>returned = passesOf 0 t, passes = r + 0, warnings = []\<rparr>"
      by (subst balanced_loop.simps) (simp add: passesOf_0)
    with \<open>r = 100\<close> show ?thesis by (intro exI [of _ 0]) simp
  next
    case True
    note b = balance_relaxed [OF "1.prems"(1)]
    show ?thesis
    proof (cases "avgDist nVerts t (relaxed t) < 1 / 10 ^ 8")
      case True
      have "balanced_loop nVerts r t = Inr \<lparr>returned = passesOf 1 t, passes = r + 1, warnings = []\<rparr>"
        using \<open>r < 100\<close> b True by (subst balanced_loop.simps) (simp add: passesOf_def)
      moreover have "avgDist nVerts (passesOf (1 - 1) t) (passesOf 1 t) < 1 / 10 ^ 8"
        using True by (simp add: passesOf_def)
      ultimately show ?thesis using \<open>r < 100\<close> by (intro exI [of _ 1]) simp
    next
      case False
      have unf: "balanced_loop nVerts r t = balanced_loop nVerts (r + 1) (relaxed t)"
        using \<open>r < 100\<close> b False by (subst balanced_loop.simps) simp
      from "1.IH" [OF \<open>r < 100\<close> b False triangular_relaxed [OF "1.prems"(1)]] \<open>r < 100\<close>
      obtain m where m: "r + 1 + m \<le> 100"
        "balanced_loop nVerts (r + 1) (relaxed t)
           = Inr \<lparr>returned = passesOf m (relaxed t), passes = r + 1 + m, warnings = []\<rparr>"
        "r + 1 + m < 100 \<longrightarrow> 0 < m
           \<and> avgDist nVerts (passesOf (m - 1) (relaxed t)) (passesOf m (relaxed t)) < 1 / 10 ^ 8"
        "\<And>m'. m' + 1 < m \<Longrightarrow>
           \<not> avgDist nVerts (passesOf m' (relaxed t)) (passesOf (m' + 1) (relaxed t)) < 1 / 10 ^ 8"
        by auto
      have last: "avgDist nVerts (passesOf (Suc m - 1) t) (passesOf (Suc m) t) < 1 / 10 ^ 8"
        if "r + Suc m < 100"
      proof -
        from that m(3) have "0 < m"
          "avgDist nVerts (passesOf (m - 1) (relaxed t)) (passesOf m (relaxed t)) < 1 / 10 ^ 8"
          by simp_all
        moreover from \<open>0 < m\<close> have "passesOf (Suc m - 1) t = passesOf (m - 1) (relaxed t)"
          using passesOf_Suc [of "m - 1" t] by simp
        ultimately show ?thesis by (simp add: passesOf_Suc)
      qed
      have earlier: "\<not> avgDist nVerts (passesOf m' t) (passesOf (m' + 1) t) < 1 / 10 ^ 8"
        if "m' + 1 < Suc m" for m'
      proof (cases m')
        case 0
        then show ?thesis using False by (simp add: passesOf_def)
      next
        case (Suc k)
        with that have "k + 1 < m" by simp
        from m(4) [OF this] show ?thesis unfolding Suc by (simp add: passesOf_Suc)
      qed
      have "balanced_loop nVerts r t
          = Inr \<lparr>returned = passesOf (Suc m) t, passes = r + Suc m, warnings = []\<rparr>"
        using unf m(2) by (simp add: passesOf_Suc)
      moreover have "r + Suc m \<le> 100" using m(1) by simp
      ultimately show ?thesis using last earlier by (intro exI [of _ "Suc m"]) simp
    qed
  qed
qed

declare balanced_loop.simps [simp del] findSineRatio_loop.simps [simp del]


lemma balanced_run:
  "\<exists>m. 1 \<le> m \<and> m \<le> 100
     \<and> balanced n = Inr \<lparr>returned = passesOf m (sineBased n), passes = m, warnings = []\<rparr>
     \<and> (m < 100 \<longrightarrow> avgDist (length (concat (sineBased n)))
            (passesOf (m - 1) (sineBased n)) (passesOf m (sineBased n)) < 1 / 10 ^ 8)
     \<and> (\<forall>m'. m' + 1 < m \<longrightarrow> \<not> avgDist (length (concat (sineBased n)))
            (passesOf m' (sineBased n)) (passesOf (m' + 1) (sineBased n)) < 1 / 10 ^ 8)"
proof -
  have "\<exists>m. 0 + m \<le> 100 \<and> ((0::nat) < 100 \<longrightarrow> 0 < m)
     \<and> balanced_loop (length (concat (sineBased n))) 0 (sineBased n)
        = Inr \<lparr>returned = passesOf m (sineBased n), passes = 0 + m, warnings = []\<rparr>
     \<and> (0 + m < 100 \<longrightarrow> avgDist (length (concat (sineBased n)))
            (passesOf (m - 1) (sineBased n)) (passesOf m (sineBased n)) < 1 / 10 ^ 8)
     \<and> (\<forall>m'. m' + 1 < m \<longrightarrow> \<not> avgDist (length (concat (sineBased n)))
            (passesOf m' (sineBased n)) (passesOf (m' + 1) (sineBased n)) < 1 / 10 ^ 8)"
    by (rule balanced_loop_run [OF triangular_sineBased]) simp
  then obtain m where "m \<le> 100" "0 < m"
    "balanced_loop (length (concat (sineBased n))) 0 (sineBased n)
       = Inr \<lparr>returned = passesOf m (sineBased n), passes = m, warnings = []\<rparr>"
    "m < 100 \<longrightarrow> avgDist (length (concat (sineBased n)))
            (passesOf (m - 1) (sineBased n)) (passesOf m (sineBased n)) < 1 / 10 ^ 8"
    "\<forall>m'. m' + 1 < m \<longrightarrow> \<not> avgDist (length (concat (sineBased n)))
            (passesOf m' (sineBased n)) (passesOf (m' + 1) (sineBased n)) < 1 / 10 ^ 8"
    by auto
  then show ?thesis unfolding balanced_def Let_def by (intro exI [of _ m]) simp
qed



subsection \<open>The reads of the dihedral computation\<close>

lemma readAt_int:
  assumes "triangular n t" "0 \<le> i" "0 \<le> j" "i + j \<le> int n"
  shows "readAt t i j = Inr (t ! nat i ! nat j)"
proof -
  have "nat i + nat j \<le> n" using assms(2-4) by linarith
  from readAt_triangular [OF assms(1) this] assms(2,3) show ?thesis by simp
qed

lemma readAt_valid:
  "triangular n t \<Longrightarrow> validPos (int n) i j \<Longrightarrow> \<exists>v. readAt t i j = Inr v"
  using readAt_int [of n t i j] by (auto simp: validPos_def)

lemma forward_offsets_cases:
  assumes "(di, dj) \<in> set forwardNeighborOffsets"
  obtains "di = 1" "dj = - 1" | "di = 1" "dj = 0" | "di = 0" "dj = 1"
  using assms by (auto simp: forwardNeighborOffsets_def)

lemma opposite_positions:
  assumes "validPos n i j" "(di, dj) \<in> set forwardNeighborOffsets"
    "validPos n (i + di) (j + dj)"
  shows "(let ia = i + di + dj; ja = j - di; ib = i - dj; jb = j + di + dj in
      \<not> (ib < 0 \<and> ja < 0) \<and> \<not> (ib < 0 \<and> ib + jb > n) \<and> \<not> (ja < 0 \<and> ib + jb > n)
    \<and> (\<not> ib < 0 \<and> \<not> ja < 0 \<and> \<not> ib + jb > n \<longrightarrow> validPos n ia ja \<and> validPos n ib jb)
    \<and> (ib < 0 \<longrightarrow> validPos n 1 j) \<and> (ja < 0 \<longrightarrow> validPos n i 1)
    \<and> (ib + jb > n \<longrightarrow> validPos n i (j - 1)))"
  using assms(2)
proof (cases rule: forward_offsets_cases)
  case 1 with assms(1,3) show ?thesis by (simp add: validPos_def Let_def)
next
  case 2 with assms(1,3) show ?thesis by (simp add: validPos_def Let_def)
next
  case 3 with assms(1,3) show ?thesis by (simp add: validPos_def Let_def)
qed

lemma oppositeVertices_Inr:
  fixes t :: Triangulation
  assumes "1 \<le> n" "validPos n i j" "(di, dj) \<in> set forwardNeighborOffsets"
    "validPos n (i + di) (j + dj)" and t: "triangular (nat n) t"
  shows "\<exists>v'. readAt t (i + di) (j + dj) = Inr v'"
    and "\<exists>va vb. oppositeVertices n adjCyl t i j vtx0 di dj = Inr (va, vb)"
proof -
  have n: "int (nat n) = n" using assms(1) by simp
  show "\<exists>v'. readAt t (i + di) (j + dj) = Inr v'"
    using readAt_valid [OF t, of "i + di" "j + dj"] assms(4) n by simp
  have r: "\<And>a b. validPos n a b \<Longrightarrow> \<exists>v. readAt t a b = Inr v"
    using readAt_valid [OF t] n by simp
  show "\<exists>va vb. oppositeVertices n adjCyl t i j vtx0 di dj = Inr (va, vb)"
    using assms(3)
  proof (cases rule: forward_offsets_cases)
    case 1
    show ?thesis
    proof (cases "i + j = n")
      case True
      with assms(2,4) 1 have "validPos n i (j - 1)" by (simp add: validPos_def)
      from r [OF this] obtain vb where "readAt t i (j - 1) = Inr vb" by blast
      with True assms(2,4) 1 show ?thesis by (simp add: oppositeVertices_def validPos_def)
    next
      case False
      with assms(2,4) 1 have "validPos n i (j - 1)" "validPos n (i + 1) j" by (simp_all add: validPos_def)
      from r [OF this(1)] r [OF this(2)] obtain va vb
        where "readAt t i (j - 1) = Inr va" "readAt t (i + 1) j = Inr vb" by blast
      with False assms(2,4) 1 show ?thesis by (simp add: oppositeVertices_def validPos_def)
    qed
  next
    case 2
    show ?thesis
    proof (cases "j = 0")
      case True
      with assms(2,4) 2 have "validPos n i 1" by (simp add: validPos_def)
      from r [OF this] obtain vb where "readAt t i 1 = Inr vb" by blast
      with True assms(2,4) 2 show ?thesis by (simp add: oppositeVertices_def validPos_def)
    next
      case False
      with assms(2,4) 2 have "validPos n (i + 1) (j - 1)" "validPos n i (j + 1)"
        by (simp_all add: validPos_def)
      from r [OF this(1)] r [OF this(2)] obtain va vb
        where "readAt t (i + 1) (j - 1) = Inr va" "readAt t i (j + 1) = Inr vb" by blast
      with False assms(2,4) 2 show ?thesis by (simp add: oppositeVertices_def validPos_def)
    qed
  next
    case 3
    show ?thesis
    proof (cases "i = 0")
      case True
      with assms(2,4) 3 have "validPos n 1 j" by (simp add: validPos_def)
      from r [OF this] obtain va where "readAt t 1 j = Inr va" by blast
      with True assms(2,4) 3 show ?thesis by (simp add: oppositeVertices_def validPos_def)
    next
      case False
      with assms(2,4) 3 have "validPos n (i + 1) j" "validPos n (i - 1) (j + 1)"
        by (simp_all add: validPos_def)
      from r [OF this(1)] r [OF this(2)] obtain va vb
        where "readAt t (i + 1) j = Inr va" "readAt t (i - 1) (j + 1) = Inr vb" by blast
      with False assms(2,4) 3 show ?thesis by (simp add: oppositeVertices_def validPos_def)
    qed
  qed
qed

text \<open>
  Claim C10. Let \<open>n \<ge> 1\<close>, let \<open>(i, j)\<close> be a grid position and \<open>(di, dj)\<close> one of the
  forward offsets \<open>(1, -1)\<close>, \<open>(1, 0)\<close>, \<open>(0, 1)\<close> such that \<open>(i + di, j + dj)\<close> is a grid
  position too. With \<open>ia = i + di + dj\<close>, \<open>ja = j - di\<close>, \<open>ib = i - dj\<close>,
  \<open>jb = j + di + dj\<close>, no two of the conditions \<open>ib < 0\<close>, \<open>ja < 0\<close>, \<open>ib + jb > n\<close> hold
  together; when none holds, \<open>(ia, ja)\<close> and \<open>(ib, jb)\<close> are grid positions; and the
  position read in each of the three boundary branches is a grid position as well. So on
  a triangular grid of order \<open>n\<close> the read of the neighbour and the reads of the two
  opposite vertices all succeed.
\<close>

theorem dihedral_reads_in_grid:
  assumes "1 \<le> n" "validPos n i j" "(di, dj) \<in> set forwardNeighborOffsets"
    "validPos n (i + di) (j + dj)"
  shows "(let ia = i + di + dj; ja = j - di; ib = i - dj; jb = j + di + dj in
      \<not> (ib < 0 \<and> ja < 0) \<and> \<not> (ib < 0 \<and> ib + jb > n) \<and> \<not> (ja < 0 \<and> ib + jb > n)
    \<and> (\<not> ib < 0 \<and> \<not> ja < 0 \<and> \<not> ib + jb > n \<longrightarrow> validPos n ia ja \<and> validPos n ib jb)
    \<and> (ib < 0 \<longrightarrow> validPos n 1 j) \<and> (ja < 0 \<longrightarrow> validPos n i 1)
    \<and> (ib + jb > n \<longrightarrow> validPos n i (j - 1)))
    \<and> (\<forall>t adjCyl vtx0. triangular (nat n) t \<longrightarrow>
          (\<exists>v'. readAt t (i + di) (j + dj) = Inr v')
        \<and> (\<exists>va vb. oppositeVertices n adjCyl t i j vtx0 di dj = Inr (va, vb)))"
  using opposite_positions [OF assms(2-4)] oppositeVertices_Inr [OF assms] by blast

theorem dihedral_reads_in_grid_witness:
  "(1::int) \<le> 2 \<and> validPos 2 0 1 \<and> (1, - 1) \<in> set forwardNeighborOffsets
   \<and> validPos 2 (0 + 1) (1 + - 1)
   \<and> validPos 2 0 0 \<and> validPos 2 1 1
   \<and> (\<exists>va vb. oppositeVertices 2 False (sineBased 2) 0 1 (sineBased 2 ! 0 ! 1) 1 (- 1)
          = Inr (va, vb))"
proof -
  have h: "(1::int) \<le> 2" "validPos 2 0 1" "(1, - 1) \<in> set forwardNeighborOffsets"
    "validPos 2 (0 + 1) (1 + - 1)"
    by (simp_all add: validPos_def forwardNeighborOffsets_def)
  have t: "triangular (nat 2) (sineBased 2)" using triangular_sineBased [of 2] by simp
  from dihedral_reads_in_grid [OF h] t h show ?thesis by (simp add: Let_def)
qed

subsection \<open>The index buffer of the mesh builder\<close>

lemma length_store: "length (store a idx v) = length a"
  by (simp add: store_def)

lemma set_store: "set (store a idx v) \<subseteq> insert v (set a)"
  by (auto simp: store_def dest: set_update_subset_insert [THEN subsetD])

lemma nth_store_other: "int k \<noteq> idx \<Longrightarrow> store a idx v ! k = a ! k"
  by (auto simp: store_def)

lemma triangle_fields:
  "vertexIdx (triangle f m) = vertexIdx m + 1"
  "length (indices (triangle f m)) = length (indices m)"
  "normals (triangle f m) = normals m" "uvs (triangle f m) = uvs m"
  by (simp_all add: triangle_def length_store)

lemma setVertexData_fields:
  "vertexIdx (setVertexData idx normal u v m) = vertexIdx m"
  "indices (setVertexData idx normal u v m) = indices m"
  by (simp_all add: setVertexData_def)

lemma triangle_within:
  assumes "indicesWithin N m"
    "0 \<le> f 0 0" "f 0 0 < N" "0 \<le> f 0 1" "f 0 1 < N" "0 \<le> f 1 0" "f 1 0 < N"
  shows "indicesWithin N (triangle f m)"
proof -
  have r: "\<And>x. 0 \<le> x \<Longrightarrow> x < N \<Longrightarrow> 0 \<le> x mod 2 ^ 32 \<and> x mod 2 ^ 32 < N"
  proof -
    fix x :: int assume "0 \<le> x" "x < N"
    moreover have "x mod 2 ^ 32 \<le> x" using \<open>0 \<le> x\<close> by (rule zmod_le_nonneg_dividend)
    ultimately show "0 \<le> x mod 2 ^ 32 \<and> x mod 2 ^ 32 < N" by simp
  qed
  have "set (indices (triangle f m))
      \<subseteq> insert (f 1 0 mod 2 ^ 32) (insert (f 0 1 mod 2 ^ 32) (insert (f 0 0 mod 2 ^ 32) (set (indices m))))"
  proof -
    have "\<And>(a :: int list) i1 v1 i2 v2 i3 v3. set (store (store (store a i1 v1) i2 v2) i3 v3)
        \<subseteq> insert v3 (insert v2 (insert v1 (set a)))"
      using set_store by (metis insert_mono subset_trans)
    then show ?thesis by (simp add: triangle_def)
  qed
  then have a: "\<forall>x \<in> set (indices (triangle f m)). 0 \<le> x \<and> x < N"
    using assms r by (auto simp: indicesWithin_def)
  have b: "indices (triangle f m) ! k = 0"
    if "3 * vertexIdx (triangle f m) \<le> k" "k < length (indices (triangle f m))" for k
  proof -
    from that have k: "3 * vertexIdx m + 3 \<le> k" "k < length (indices m)"
      by (simp_all add: triangle_fields)
    then have "indices (triangle f m) ! k = indices m ! k"
      by (simp add: triangle_def nth_store_other)
    with k assms(1) show ?thesis by (simp add: indicesWithin_def)
  qed
  from a b show ?thesis by (simp add: indicesWithin_def)
qed

lemma setVertexData_within:
  "indicesWithin N m \<Longrightarrow> indicesWithin N (setVertexData idx normal u v m)"
  by (simp add: indicesWithin_def setVertexData_fields)

lemma visitVertex_effect:
  assumes "0 \<le> i" "0 \<le> j" "i + j \<le> n" "indicesWithin (nVertices n) m"
  shows "indicesWithin (nVertices n) (visitVertex n i j v m)"
    and "vertexIdx (visitVertex n i j v m)
           = vertexIdx m + (if i > 0 then 1 else 0) + (if i > 0 \<and> j > 0 then 1 else 0)"
    and "length (indices (visitVertex n i j v m)) = length (indices m)"
proof -
  let ?m1 = "setVertexData (vtx n i j) v
      (ratio (real_of_int j + real_of_int i / 2) n) (ratio (real_of_int i) n) m"
  let ?up = "\<lambda>u v. vtx n (i - 1 + u) (j + v)"
  let ?down = "\<lambda>u v. vtx n (i - u) (j - v)"
  have w1: "indicesWithin (nVertices n) ?m1" using assms(4) by (rule setVertexData_within)
  have range: "\<And>a b. validPos n a b \<Longrightarrow> 0 \<le> vtx n a b \<and> vtx n a b < nVertices n"
    using vtx_nonneg vtx_less_nVertices by blast
  have up: "indicesWithin (nVertices n) (triangle ?up ?m1)" if "i > 0"
  proof -
    have "validPos n (i - 1) j" "validPos n (i - 1) (j + 1)" "validPos n i j"
      using assms(1-3) that by (simp_all add: validPos_def)
    then show ?thesis using range w1 by (intro triangle_within) simp_all
  qed
  have down: "indicesWithin (nVertices n) (triangle ?down m')"
    if "i > 0" "j > 0" "indicesWithin (nVertices n) m'" for m'
  proof -
    have "validPos n i j" "validPos n i (j - 1)" "validPos n (i - 1) j"
      using assms(1-3) that by (simp_all add: validPos_def)
    then show ?thesis using range that(3) by (intro triangle_within) simp_all
  qed
  show "indicesWithin (nVertices n) (visitVertex n i j v m)"
    using w1 up down by (simp add: visitVertex_def Let_def)
  show "vertexIdx (visitVertex n i j v m)
           = vertexIdx m + (if i > 0 then 1 else 0) + (if i > 0 \<and> j > 0 then 1 else 0)"
    by (simp add: visitVertex_def Let_def triangle_fields setVertexData_fields)
  show "length (indices (visitVertex n i j v m)) = length (indices m)"
    by (simp add: visitVertex_def Let_def triangle_fields setVertexData_fields)
qed

lemma enumerate_take_Suc:
  "j < length xs \<Longrightarrow> enumerate 0 (take (Suc j) xs) = enumerate 0 (take j xs) @ [(j, xs ! j)]"
  by (simp add: take_Suc_conv_app_nth enumerate_append_eq)

lemma visitRow_prefix:
  assumes "0 \<le> i" "i + int (length row) \<le> n + 1" "indicesWithin (nVertices n) m"
  shows "j \<le> length row \<Longrightarrow>
    indicesWithin (nVertices n) (visitRow n i (take j row) m)
    \<and> vertexIdx (visitRow n i (take j row) m) = vertexIdx m + (if i > 0 then 2 * j - 1 else 0)
    \<and> length (indices (visitRow n i (take j row) m)) = length (indices m)"
proof (induction j)
  case 0
  then show ?case using assms(3) by (simp add: visitRow_def)
next
  case (Suc j)
  then have j: "j < length row" by simp
  let ?m = "visitRow n i (take j row) m"
  from Suc have IH: "indicesWithin (nVertices n) ?m"
    "vertexIdx ?m = vertexIdx m + (if i > 0 then 2 * j - 1 else 0)"
    "length (indices ?m) = length (indices m)" by simp_all
  have step: "visitRow n i (take (Suc j) row) m = visitVertex n i (int j) (row ! j) ?m"
    by (simp add: visitRow_def enumerate_take_Suc [OF j])
  have ij: "i + int j \<le> n" using assms(2) j by simp
  note e = visitVertex_effect [OF assms(1) _ ij IH(1), of "row ! j"]
  have "vertexIdx (visitVertex n i (int j) (row ! j) ?m)
      = vertexIdx m + (if i > 0 then 2 * Suc j - 1 else 0)"
    using e(2) IH(2) by (cases j) auto
  then show ?case using e(1,3) IH(3) by (simp add: step)
qed

lemma visitRow_effect:
  assumes "0 \<le> i" "i + int (length row) \<le> n + 1" "indicesWithin (nVertices n) m"
  shows "indicesWithin (nVertices n) (visitRow n i row m)"
    and "vertexIdx (visitRow n i row m) = vertexIdx m + (if i > 0 then 2 * length row - 1 else 0)"
    and "length (indices (visitRow n i row m)) = length (indices m)"
  using visitRow_prefix [OF assms, of "length row"] by simp_all

lemma nVertices_pos: "0 \<le> n \<Longrightarrow> 0 < nVertices n"
proof -
  assume "0 \<le> n"
  then have "0 < (n + 1) * (2 * n + 3 - (n + 1))" by (intro mult_pos_pos) simp_all
  then have "0 < 2 * nVertices n" unfolding nVertices_def rowVertices_exact .
  then show ?thesis by simp
qed

lemma indicesWithin_emptyMesh: "indicesWithin (nVertices (int n)) (emptyMesh (int n))"
  using nVertices_pos [of "int n"] by (simp add: emptyMesh_def indicesWithin_def)

lemma fillMesh_prefix:
  assumes "triangular n t"
  shows "k \<le> n + 1 \<Longrightarrow>
    (let m = foldl (\<lambda>m (i, row). visitRow (int n) (int i) row m) (emptyMesh (int n))
               (enumerate 0 (take k t)) in
     indicesWithin (nVertices (int n)) m
     \<and> vertexIdx m = (k - 1) * (2 * n + 1 - k)
     \<and> length (indices m) = nat (nTriangles (int n) * 3))"
proof (induction k)
  case 0
  show ?case using indicesWithin_emptyMesh [of n] by (simp add: emptyMesh_def)
next
  case (Suc k)
  then have k: "k < length t" "k \<le> n" using triangular_length [OF assms] by simp_all
  let ?g = "\<lambda>m (i, row). visitRow (int n) (int i) row m"
  let ?m = "foldl ?g (emptyMesh (int n)) (enumerate 0 (take k t))"
  from Suc have IH: "indicesWithin (nVertices (int n)) ?m"
    "vertexIdx ?m = (k - 1) * (2 * n + 1 - k)"
    "length (indices ?m) = nat (nTriangles (int n) * 3)" by (simp_all add: Let_def)
  have step: "foldl ?g (emptyMesh (int n)) (enumerate 0 (take (Suc k) t))
      = visitRow (int n) (int k) (t ! k) ?m"
    by (simp add: enumerate_take_Suc [OF k(1)])
  have len: "length (t ! k) = n - k + 1" using triangular_row [OF assms k(2)] .
  then have b: "int k + int (length (t ! k)) \<le> int n + 1" using k(2) by simp
  note e = visitRow_effect [OF _ b IH(1)]
  have "vertexIdx (visitRow (int n) (int k) (t ! k) ?m) = (Suc k - 1) * (2 * n + 1 - Suc k)"
  proof (cases k)
    case 0
    then show ?thesis using e(2) IH(2) by simp
  next
    case (Suc k')
    have "vertexIdx (visitRow (int n) (int k) (t ! k) ?m)
        = (k - 1) * (2 * n + 1 - k) + (2 * (n - k + 1) - 1)"
      using e(2) IH(2) len Suc by simp
    also have "\<dots> = k' * (2 * n - k') + (2 * (n - k') - 1)" using Suc k(2) by simp
    also have "\<dots> = Suc k' * (2 * n - Suc k')"
    proof -
      obtain d where d: "n = Suc k' + d" using Suc k(2) by (metis le_Suc_ex)
      show ?thesis unfolding d by (simp add: algebra_simps)
    qed
    finally show ?thesis using Suc by simp
  qed
  then show ?case using e(1,3) IH(3) by (simp add: step Let_def)
qed

lemma fillMesh_effect:
  assumes "triangular n t"
  shows "indicesWithin (nVertices (int n)) (fillMesh (int n) t)"
    and "vertexIdx (fillMesh (int n) t) = n * n"
    and "length (indices (fillMesh (int n) t)) = nat (nTriangles (int n) * 3)"
proof -
  have "take (n + 1) t = t" using triangular_length [OF assms] by simp
  with fillMesh_prefix [OF assms, of "n + 1"]
  show "indicesWithin (nVertices (int n)) (fillMesh (int n) t)"
    and "vertexIdx (fillMesh (int n) t) = n * n"
    and "length (indices (fillMesh (int n) t)) = nat (nTriangles (int n) * 3)"
    by (simp_all add: fillMesh_def Let_def)
qed

text \<open>
  Claim C2 and what the code does instead. For a triangular grid of order \<open>n\<close> the mesh
  builder calls \<^verbatim>\<open>triangle\<close> exactly \<open>n\<^sup>2\<close> times, and every entry of the index buffer is
  a vertex index below \<open>(n + 1) (n + 2) / 2\<close>. But the buffer is allocated for
  \<^verbatim>\<open>nTriangles = 6 * 2 + 12 * steps * 2 + 8 * steps**2\<close> triangles: it holds
  \<open>8 n\<^sup>2 + 24 n + 12\<close> index triples, not \<open>n\<^sup>2\<close>, and the triples after the first \<open>n\<^sup>2\<close>
  are never written and stay \<open>(0, 0, 0)\<close>.
\<close>

theorem mesh_index_buffer:
  assumes "triangular n t"
  shows "vertexIdx (fillMesh (int n) t) = n\<^sup>2
    \<and> length (indices (fillMesh (int n) t)) = 3 * (8 * n\<^sup>2 + 24 * n + 12)
    \<and> (\<forall>x \<in> set (indices (fillMesh (int n) t)).
          0 \<le> x \<and> x < (int n + 1) * (int n + 2) div 2)
    \<and> (\<forall>k. 3 * n\<^sup>2 \<le> k \<and> k < length (indices (fillMesh (int n) t))
          \<longrightarrow> indices (fillMesh (int n) t) ! k = 0)"
proof -
  note e = fillMesh_effect [OF assms]
  have "nTriangles (int n) * 3 = int (3 * (8 * n\<^sup>2 + 24 * n + 12))"
    by (simp add: nTriangles_def)
  then have "nat (nTriangles (int n) * 3) = 3 * (8 * n\<^sup>2 + 24 * n + 12)"
    by (metis nat_int)
  with e show ?thesis
    unfolding indicesWithin_def nVertices_closed by (simp add: power2_eq_square)
qed

text \<open>
  For \<^verbatim>\<open>steps = 1\<close> the buffer handed to the rendering library has 132 entries, 44
  triples, of which the first is the triangle of the patch.
\<close>

lemma flat_1: "flat 1 1 = [[ex, ez], [ey]]"
  by (simp add: flat_def triangulate_def subdivide_1 subdivide_0 enumerate_simps
      lerp_def add_def subtract_def scale_def v3_def ex_def ey_def ez_def)

lemma indices_fillMesh_1: "indices (fillMesh 1 [[a, b], [c]]) = [0, 1, 2] @ replicate 129 0"
proof -
  have r: "replicate (nat (nTriangles 1 * 3)) (0::int) = [0, 0, 0] @ replicate 129 0"
  proof -
    have "replicate (nat (nTriangles 1 * 3)) (0::int) = replicate (3 + 129) 0"
      by (simp add: nTriangles_def)
    also have "\<dots> = replicate 3 0 @ replicate 129 0" by (rule replicate_add)
    also have "replicate 3 (0::int) = [0, 0, 0]" by (simp add: numeral_3_eq_3)
    finally show ?thesis .
  qed
  show ?thesis
    by (simp add: fillMesh_def visitRow_def visitVertex_def enumerate_simps emptyMesh_def r
        setVertexData_def triangle_def store_def vtx_def rowVertices_def Let_def)
qed

theorem mesh_index_buffer_witness:
  "triangular 1 (flat 1 1)
   \<and> vertexIdx (fillMesh (int 1) (flat 1 1)) = 1\<^sup>2
   \<and> length (indices (fillMesh (int 1) (flat 1 1))) = 3 * 44
   \<and> indices (fillMesh (int 1) (flat 1 1)) = [0, 1, 2] @ replicate 129 0"
proof -
  have t: "triangular 1 (flat 1 1)" by (rule triangular_flat)
  have i: "indices (fillMesh (int 1) (flat 1 1)) = [0, 1, 2] @ replicate 129 0"
    unfolding flat_1 using indices_fillMesh_1 by simp
  from mesh_index_buffer [OF t]
  have "vertexIdx (fillMesh (int 1) (flat 1 1)) = 1\<^sup>2"
    "length (indices (fillMesh (int 1) (flat 1 1))) = 3 * 44" by simp_all
  with t i show ?thesis by blast
qed

subsection \<open>Subdivision order 0\<close>

lemma triangular_0: "triangular 0 t \<Longrightarrow> \<exists>p. t = [[p]]"
proof -
  assume "triangular 0 t"
  then have "map length t = [1]" by (simp add: triangular_def rowLengths_def)
  then obtain r where "t = [r]" "length r = 1" by (auto simp: map_eq_Cons_conv)
  then show ?thesis by (cases r) auto
qed


















lemma forTriangles_0: "forTriangles [[p]] f s = Inr s"
  by (simp add: forTriangles_def enumerate_simps trianglesAt_def)













lemma proj_ex: "proj ex = Some ex"
  by (simp add: proj_def ex_def v3_def Let_def)









subsection \<open>The two projections in exact arithmetic\<close>

text \<open>
  \<^verbatim>\<open>sineBased\<close> projects a point of \<^verbatim>\<open>sines\<close> to the sphere through the origin,
  \<^verbatim>\<open>sineBased2\<close> along the direction \<open>(1, 1, 1)\<close>. In exact arithmetic the parallel
  projection ends on the unit sphere whenever its radicand is not negative, and both
  projections leave a unit vector with a non-negative coordinate sum where it is. The
  sine warp of a point \<open>(a, 1 - a, 0)\<close> of an edge of the flat triangle is such a vector
  (\<open>sines_edge_point\<close>). The rounding of the double-precision numbers of the program is
  not part of this model.
\<close>

lemma proj_unit:
  assumes "0 \<le> 2 * (vx p * vy p + vx p * vz p + vy p * vz p
                   - vx p * vx p - vy p * vy p - vz p * vz p) + 3"
  shows "\<exists>q. proj p = Some q \<and> vlength q = 1"
proof -
  define x y z where "x = vx p" and "y = vy p" and "z = vz p"
  define D where "D = 2 * (x * y + x * z + y * z - x * x - y * y - z * z) + 3"
  define s where "s = sqrt D"
  define S where "S = x + y + z"
  define l where "l = (s - S) / 3"
  have D: "0 \<le> D" using assms by (simp add: D_def x_def y_def z_def)
  then have ss: "s * s = D" by (simp add: s_def)
  have p: "proj p = Some (v3 (x + l) (y + l) (z + l))"
    using D by (simp add: proj_def Let_def x_def y_def z_def D_def s_def l_def S_def)
  have e1: "(x + l) * (x + l) + (y + l) * (y + l) + (z + l) * (z + l)
      = (x * x + y * y + z * z) + 2 * l * S + 3 * (l * l)"
    by (simp add: algebra_simps S_def)
  have l3: "3 * l = s - S" by (simp add: l_def)
  have "3 * (3 * (l * l)) = (3 * l) * (3 * l)" by simp
  also have "\<dots> = s * s - 2 * s * S + S * S" unfolding l3 by (simp add: algebra_simps)
  finally have e2: "3 * (l * l) = (s * s - 2 * s * S + S * S) / 3" by simp
  have "3 * (2 * l * S) = 2 * (3 * l) * S" by simp
  also have "\<dots> = 2 * s * S - 2 * (S * S)" unfolding l3 by (simp add: algebra_simps)
  finally have e3: "2 * l * S = (2 * s * S - 2 * (S * S)) / 3" by simp
  have e4: "S * S = x * x + y * y + z * z + 2 * (x * y + x * z + y * z)"
    by (simp add: S_def algebra_simps)
  have "(x * x + y * y + z * z) + 2 * l * S + 3 * (l * l)
      = (x * x + y * y + z * z) + (D - S * S) / 3"
    unfolding e2 e3 ss by (simp add: field_simps)
  also have "\<dots> = 1" unfolding e4 D_def by (simp add: field_simps)
  finally have "(x + l) * (x + l) + (y + l) * (y + l) + (z + l) * (z + l) = 1"
    using e1 by simp
  then have "vlength (v3 (x + l) (y + l) (z + l)) = 1"
    by (simp add: vlength_def v3_def)
  with p show ?thesis by blast
qed


lemma proj_normalize'_on_sphere:
  assumes "vx p * vx p + vy p * vy p + vz p * vz p = 1" "0 \<le> vx p + vy p + vz p"
  shows "proj p = Some p" and "normalize' p = p"
proof -
  define S where "S = vx p + vy p + vz p"
  have "S * S = vx p * vx p + vy p * vy p + vz p * vz p
      + 2 * (vx p * vy p + vx p * vz p + vy p * vz p)"
    by (simp add: S_def algebra_simps)
  then have D: "2 * (vx p * vy p + vx p * vz p + vy p * vz p
      - vx p * vx p - vy p * vy p - vz p * vz p) + 3 = S * S"
    using assms(1) by simp
  have "sqrt (S * S) = S" using assms(2) by (simp add: S_def)
  then show "proj p = Some p"
    unfolding proj_def Let_def D by (simp add: S_def v3_def)
  show "normalize' p = p" using assms(1) by (simp add: normalize'_def vlength_def)
qed

lemma sines_edge_point:
  assumes "0 \<le> a" "a \<le> 1"
  shows "proj (v3 (sin (TAU / 4 * a)) (sin (TAU / 4 * (1 - a))) 0)
           = Some (v3 (sin (TAU / 4 * a)) (sin (TAU / 4 * (1 - a))) 0)"
    and "normalize' (v3 (sin (TAU / 4 * a)) (sin (TAU / 4 * (1 - a))) 0)
           = v3 (sin (TAU / 4 * a)) (sin (TAU / 4 * (1 - a))) 0"
proof -
  define s where "s = sin (TAU / 4 * a)"
  define c where "c = sin (TAU / 4 * (1 - a))"
  have "TAU / 4 * (1 - a) = pi / 2 - TAU / 4 * a" by (simp add: TAU_def field_simps)
  then have "c = sin (pi / 2 - TAU / 4 * a)" unfolding c_def by (rule arg_cong)
  also have "\<dots> = cos (TAU / 4 * a)" using cos_sin_eq [of "TAU / 4 * a"] by simp
  finally have c: "c = cos (TAU / 4 * a)" .
  have "s * s + c * c = 1"
    unfolding s_def c using sin_cos_squared_add [of "TAU / 4 * a"]
    by (simp only: power2_eq_square)
  then have u: "vx (v3 s c 0) * vx (v3 s c 0) + vy (v3 s c 0) * vy (v3 s c 0)
      + vz (v3 s c 0) * vz (v3 s c 0) = 1"
    by (simp add: v3_def)
  have "0 \<le> 1 - a" "1 - a \<le> 1" using assms by simp_all
  then have "0 \<le> c" unfolding c_def by (rule sin_quarter_nonneg)
  moreover have "0 \<le> s" unfolding s_def using assms by (rule sin_quarter_nonneg)
  ultimately have n: "0 \<le> vx (v3 s c 0) + vy (v3 s c 0) + vz (v3 s c 0)" by (simp add: v3_def)
  show "proj (v3 (sin (TAU / 4 * a)) (sin (TAU / 4 * (1 - a))) 0)
           = Some (v3 (sin (TAU / 4 * a)) (sin (TAU / 4 * (1 - a))) 0)"
    using proj_normalize'_on_sphere(1) [OF u n] unfolding s_def c_def .
  show "normalize' (v3 (sin (TAU / 4 * a)) (sin (TAU / 4 * (1 - a))) 0)
           = v3 (sin (TAU / 4 * a)) (sin (TAU / 4 * (1 - a))) 0"
    using proj_normalize'_on_sphere(2) [OF u n] unfolding s_def c_def .
qed

subsection \<open>The points of a grid\<close>

text \<open>
  The point at offset \<open>j\<close> of row \<open>i\<close> of a grid is the generating function at the
  parameters \<open>t = j / (n - i)\<close> and \<open>u = i / n\<close> (0 where the denominator is 0); for the
  flat grid it has the coordinates \<open>((1 - t) (1 - u), u, t (1 - u))\<close>, which are not
  negative and sum to 1.
\<close>

lemma subdivide_nth:
  "j \<le> m \<Longrightarrow> subdivide 0 1 m ! j = (if m = 0 then 0 else real j / real m)"
  by (auto simp: subdivide_def nth_append less_Suc_eq_le simp del: upt_Suc)

lemma subdivide_range:
  assumes "j \<le> m" shows "0 \<le> subdivide 0 1 m ! j" "subdivide 0 1 m ! j \<le> 1"
  using assms by (simp_all add: subdivide_nth)

lemma triangulate_nth:
  assumes "i \<le> n" "j \<le> (n - i) * r"
  shows "triangulate f n r ! i ! j
     = f (subdivide 0 1 ((n - i) * r) ! j) (subdivide 0 1 n ! i)"
proof -
  have l: "i < length (enumerate 0 (subdivide 0 1 n))"
    using assms(1) by (simp add: length_subdivide)
  have "enumerate 0 (subdivide 0 1 n) ! i = (i, subdivide 0 1 n ! i)"
    using l by (simp add: nth_enumerate_eq)
  then have "triangulate f n r ! i
      = map (\<lambda>t. f t (subdivide 0 1 n ! i)) (subdivide 0 1 ((n - i) * r))"
    using l by (simp add: triangulate_def)
  then show ?thesis using assms(2) by (simp add: length_subdivide)
qed

lemma triangulate_points:
  assumes "v \<in> set (concat (triangulate f n r))"
  shows "\<exists>t u. 0 \<le> t \<and> t \<le> 1 \<and> 0 \<le> u \<and> u \<le> 1 \<and> v = f t u"
proof -
  from assms obtain row where row: "row \<in> set (triangulate f n r)" "v \<in> set row" by auto
  from row(1) obtain i where i: "i < length (triangulate f n r)" "row = triangulate f n r ! i"
    by (auto simp: in_set_conv_nth)
  have li: "i \<le> n" using i(1) by (simp add: triangulate_def length_subdivide)
  have lr: "length row = (n - i) * r + 1"
  proof -
    have "length row = map length (triangulate f n r) ! i" using i by simp
    also have "\<dots> = (n - i) * r + 1" using li by (simp add: rowLengths_triangulate del: upt_Suc)
    finally show ?thesis .
  qed
  from row(2) obtain j where j: "j < length row" "v = row ! j" by (auto simp: in_set_conv_nth)
  then have lj: "j \<le> (n - i) * r" using lr by simp
  have "v = f (subdivide 0 1 ((n - i) * r) ! j) (subdivide 0 1 n ! i)"
    using j(2) i(2) triangulate_nth [OF li lj] by simp
  then show ?thesis using subdivide_range [OF li] subdivide_range [OF lj] by blast
qed

lemma flat_point:
  "lerp (lerp ex ez t) ey u = v3 ((1 - t) * (1 - u)) u (t * (1 - u))"
  by (simp add: lerp_def add_def scale_def subtract_def v3_def ex_def ey_def ez_def algebra_simps)


lemma map2'_nth:
  assumes "triangular n t" "i + j \<le> n"
  shows "map2' t f ! i ! j = f (t ! i ! j)"
proof -
  have "i < length t" using triangular_length [OF assms(1)] assms(2) by simp
  moreover have "j < length (t ! i)" using triangular_row [OF assms(1), of i] assms(2) by simp
  ultimately show ?thesis by (simp add: map2'_def)
qed







subsection \<open>The two sine-based generators on the boundary and inside\<close>












subsection \<open>The generators on the sphere\<close>

lemma set_concat_map2': "set (concat (map2' t f)) = f ` set (concat t)"
  by (auto simp: map2'_def)

lemma flat_points:
  assumes "p \<in> set (concat (flat n r))"
  shows "0 \<le> vx p \<and> 0 \<le> vy p \<and> 0 \<le> vz p \<and> baryNorm p = 1"
proof -
  from triangulate_points [OF assms [unfolded flat_def]]
  obtain t u where tu: "0 \<le> t" "t \<le> 1" "0 \<le> u" "u \<le> 1"
    and p: "p = lerp (lerp ex ez t) ey u" by auto
  have "0 \<le> (1 - t) * (1 - u)" "0 \<le> t * (1 - u)" using tu by simp_all
  moreover have "(1 - t) * (1 - u) + u + t * (1 - u) = 1" by (simp add: algebra_simps)
  ultimately show ?thesis unfolding p flat_point using tu(3) by (simp add: v3_def baryNorm_def)
qed

lemma geodesics_points:
  assumes "v \<in> set (concat (geodesics n r))"
  shows "vlength v = 1"
proof -
  from triangulate_points [OF assms [unfolded geodesics_def]]
  obtain t u where tu: "0 \<le> t" "t \<le> 1" "0 \<le> u" "u \<le> 1"
    and v: "v = normalize' (lerp (lerp ex ez t) ey u)" by auto
  have "baryNorm (lerp (lerp ex ez t) ey u) = 1"
    unfolding flat_point by (simp add: v3_def baryNorm_def algebra_simps)
  then have "vlength (lerp (lerp ex ez t) ey u) \<noteq> 0" by (intro baryNorm_nonzero_vlength) simp
  then show ?thesis unfolding v by (rule normalize'_unit)
qed

lemma sines_points:
  assumes "w \<in> set (concat (sines n))"
  shows "0 \<le> vx w \<and> vx w \<le> 1 \<and> 0 \<le> vy w \<and> vy w \<le> 1 \<and> 0 \<le> vz w \<and> vz w \<le> 1
     \<and> vlength w \<noteq> 0"
proof -
  from assms obtain p where p: "p \<in> set (concat (flat n 1))"
    and w: "w = v3 (sin (TAU / 4 * vx p)) (sin (TAU / 4 * vy p)) (sin (TAU / 4 * vz p))"
    unfolding sines_def set_concat_map2' by blast
  from flat_points [OF p] have f: "0 \<le> vx p" "0 \<le> vy p" "0 \<le> vz p" "baryNorm p = 1" by simp_all
  then have le: "vx p \<le> 1" "vy p \<le> 1" "vz p \<le> 1" by (simp_all add: baryNorm_def)
  have "0 < vx p \<or> 0 < vy p \<or> 0 < vz p" using f by (auto simp: baryNorm_def)
  then have "0 < sin (TAU / 4 * vx p) \<or> 0 < sin (TAU / 4 * vy p) \<or> 0 < sin (TAU / 4 * vz p)"
    using le sin_quarter_pos by blast
  then have "vlength w \<noteq> 0" unfolding w by (auto simp: vlength_zero_iff v3_def)
  moreover have "0 \<le> sin (TAU / 4 * vx p)" "0 \<le> sin (TAU / 4 * vy p)" "0 \<le> sin (TAU / 4 * vz p)"
    using f(1-3) le by (simp_all only: sin_quarter_nonneg)
  ultimately show ?thesis
    unfolding w by (simp only: v3_def Vector3.simps sin_le_one simp_thms)
qed

lemma sineBased_points:
  assumes "v \<in> set (concat (sineBased n))"
  shows "vlength v = 1"
proof -
  from assms obtain w where w: "w \<in> set (concat (sines n))" and v: "v = normalize' w"
    unfolding sineBased_def set_concat_map2' by blast
  from sines_points [OF w] have "vlength w \<noteq> 0" by simp
  then show ?thesis unfolding v by (rule normalize'_unit)
qed

lemma square_diff_le_1:
  fixes a b :: real
  assumes "0 \<le> a" "a \<le> 1" "0 \<le> b" "b \<le> 1"
  shows "(a - b) * (a - b) \<le> 1"
proof -
  have "\<bar>a - b\<bar> \<le> 1" using assms by linarith
  then have "\<bar>a - b\<bar> * \<bar>a - b\<bar> \<le> 1 * 1" by (intro mult_mono) simp_all
  then show ?thesis by (simp add: abs_mult_self_eq)
qed

lemma sineBased2_points:
  assumes "v \<in> set (concat (sineBased2 n))"
  shows "\<exists>q. v = Some q \<and> vlength q = 1"
proof -
  from assms obtain w where w: "w \<in> set (concat (sines n))" and v: "v = proj w"
    unfolding sineBased2_def set_concat_map2' by blast
  from sines_points [OF w] have r: "0 \<le> vx w" "vx w \<le> 1" "0 \<le> vy w" "vy w \<le> 1"
    "0 \<le> vz w" "vz w \<le> 1" by simp_all
  have "2 * (vx w * vy w + vx w * vz w + vy w * vz w - vx w * vx w - vy w * vy w - vz w * vz w) + 3
      = 3 - (vx w - vy w) * (vx w - vy w) - (vx w - vz w) * (vx w - vz w)
          - (vy w - vz w) * (vy w - vz w)"
    by (simp add: algebra_simps)
  moreover note square_diff_le_1 [OF r(1-4)] square_diff_le_1 [OF r(1,2,5,6)]
    square_diff_le_1 [OF r(3-6)]
  ultimately have "0 \<le> 2 * (vx w * vy w + vx w * vz w + vy w * vz w
      - vx w * vx w - vy w * vy w - vz w * vz w) + 3" by (simp only:)
  then show ?thesis unfolding v by (rule proj_unit)
qed

lemma onOctant_baryNorm: "onOctant v \<Longrightarrow> 0 < baryNorm v"
proof -
  assume v: "onOctant v"
  then have "vlength v \<noteq> 0" by (simp add: onOctant_def)
  then have "vx v \<noteq> 0 \<or> vy v \<noteq> 0 \<or> vz v \<noteq> 0" by (simp add: vlength_zero_iff)
  with v show ?thesis by (auto simp: onOctant_def baryNorm_def intro: add_pos_nonneg add_nonneg_pos)
qed

lemma normalize'_octant:
  assumes "0 \<le> vx s" "0 \<le> vy s" "0 \<le> vz s" "0 < baryNorm s"
  shows "onOctant (normalize' s)"
proof -
  have l: "vlength s \<noteq> 0" using assms(4) by (intro baryNorm_nonzero_vlength) simp
  then have u: "vlength (normalize' s) = 1" by (rule normalize'_unit)
  have "0 < vlength s" using l vlength_nonneg [of s] by simp
  then have "0 \<le> vx (normalize' s) \<and> 0 \<le> vy (normalize' s) \<and> 0 \<le> vz (normalize' s)"
    using assms(1-3) by (simp add: normalize'_def Let_def scale_def v3_def)
  with u show ?thesis by (simp add: onOctant_def)
qed

lemma foldl_add_octant:
  assumes "\<forall>v \<in> set vs. onOctant v" "0 \<le> vx a" "0 \<le> vy a" "0 \<le> vz a"
  shows "0 \<le> vx (foldl add a vs) \<and> 0 \<le> vy (foldl add a vs) \<and> 0 \<le> vz (foldl add a vs)
     \<and> baryNorm a \<le> baryNorm (foldl add a vs)
     \<and> (vs \<noteq> [] \<longrightarrow> baryNorm a < baryNorm (foldl add a vs))"
  using assms
proof (induction vs arbitrary: a)
  case Nil
  then show ?case by simp
next
  case (Cons v vs)
  have v: "onOctant v" using Cons.prems(1) by simp
  then have n: "0 \<le> vx (add a v)" "0 \<le> vy (add a v)" "0 \<le> vz (add a v)"
    using Cons.prems(2-4) by (simp_all add: add_def v3_def onOctant_def)
  have b: "baryNorm a < baryNorm (add a v)"
    using onOctant_baryNorm [OF v] by (simp add: baryNorm_def add_def v3_def)
  from Cons.IH [OF _ n] Cons.prems(1)
  have "0 \<le> vx (foldl add (add a v) vs) \<and> 0 \<le> vy (foldl add (add a v) vs)
      \<and> 0 \<le> vz (foldl add (add a v) vs) \<and> baryNorm (add a v) \<le> baryNorm (foldl add (add a v) vs)"
    by auto
  with b show ?case by simp
qed

lemma mean_octant:
  assumes "\<forall>v \<in> set vs. onOctant v" "vs \<noteq> []"
  shows "onOctant (mean vs)"
proof -
  have z: "0 \<le> vx Zero" "0 \<le> vy Zero" "0 \<le> vz Zero" "baryNorm Zero = 0"
    by (simp_all add: Zero_def v3_def baryNorm_def)
  from foldl_add_octant [OF assms(1) z(1-3)] assms(2) z(4)
  have "0 \<le> vx (foldl add Zero vs)" "0 \<le> vy (foldl add Zero vs)" "0 \<le> vz (foldl add Zero vs)"
    "0 < baryNorm (foldl add Zero vs)" by auto
  then show ?thesis unfolding mean_def by (rule normalize'_octant)
qed


lemma relaxed_octant:
  fixes t :: Triangulation
  assumes "triangular n t" "\<forall>i j. i + j \<le> n \<longrightarrow> onOctant (t ! i ! j)" "i + j \<le> n"
  shows "onOctant (relaxed t ! i ! j)"
proof -
  have "i < length t" using triangular_length [OF assms(1)] assms(3) by simp
  moreover have "j < length (t ! i)" using triangular_row [OF assms(1), of i] assms(3) by simp
  ultimately have r: "relaxed t ! i ! j = projr (balancePoint t (int i) (int j) (t ! i ! j))"
    by (rule relaxed_nth)
  note o = assms(2) [rule_format]
  from assms(3) show ?thesis
  proof (cases rule: grid_position_cases)
    case corner
    from balancePoint_corner [OF assms(1,3) corner] o [OF assms(3)] show ?thesis
      unfolding r by simp
  next
    case edge_i
    have "onOctant (t ! 0 ! (j - 1))" "onOctant (t ! 0 ! (j + 1))" using edge_i by (simp_all add: o)
    then have "onOctant (mean [t ! 0 ! (j - 1), t ! 0 ! (j + 1)])" by (intro mean_octant) simp_all
    with balancePoint_edge_i [OF assms(1) edge_i(2,3)] edge_i(1) show ?thesis
      unfolding r by simp
  next
    case edge_j
    have "onOctant (t ! (i - 1) ! 0)" "onOctant (t ! (i + 1) ! 0)" using edge_j by (simp_all add: o)
    then have "onOctant (mean [t ! (i - 1) ! 0, t ! (i + 1) ! 0])" by (intro mean_octant) simp_all
    with balancePoint_edge_j [OF assms(1) edge_j(2,3)] edge_j(1) show ?thesis
      unfolding r by simp
  next
    case edge_k
    have "onOctant (t ! (i - 1) ! (j + 1))" "onOctant (t ! (i + 1) ! (j - 1))"
      using edge_k by (simp_all add: o)
    then have "onOctant (mean [t ! (i - 1) ! (j + 1), t ! (i + 1) ! (j - 1)])"
      by (intro mean_octant) simp_all
    with balancePoint_edge_k [OF assms(1) edge_k] show ?thesis unfolding r by simp
  next
    case interior
    have "onOctant (t ! (i + 1) ! (j - 1))" "onOctant (t ! (i + 1) ! j)"
      "onOctant (t ! i ! (j - 1))" "onOctant (t ! i ! (j + 1))"
      "onOctant (t ! (i - 1) ! j)" "onOctant (t ! (i - 1) ! (j + 1))"
      using interior by (simp_all add: o)
    then have "onOctant (mean [t ! (i + 1) ! (j - 1), t ! (i + 1) ! j,
                    t ! i ! (j - 1), t ! i ! (j + 1),
                    t ! (i - 1) ! j, t ! (i - 1) ! (j + 1)])"
      by (intro mean_octant) simp_all
    with balancePoint_interior [OF assms(1) interior] show ?thesis unfolding r by simp
  qed
qed

lemma passesOf_octant:
  fixes t :: Triangulation
  assumes "triangular n t" "\<forall>i j. i + j \<le> n \<longrightarrow> onOctant (t ! i ! j)"
  shows "\<forall>i j. i + j \<le> n \<longrightarrow> onOctant (passesOf m t ! i ! j)"
  using assms
proof (induction m arbitrary: t)
  case 0
  then show ?case by (simp add: passesOf_0)
next
  case (Suc m)
  have "\<forall>i j. i + j \<le> n \<longrightarrow> onOctant (relaxed t ! i ! j)"
    using relaxed_octant [OF Suc.prems] by blast
  from Suc.IH [OF triangular_relaxed [OF Suc.prems(1)] this] show ?case
    by (simp add: passesOf_Suc)
qed

lemma triangular_points:
  assumes "triangular n t" "v \<in> set (concat t)"
  shows "\<exists>i j. i + j \<le> n \<and> v = t ! i ! j"
proof -
  from assms(2) obtain row where row: "row \<in> set t" "v \<in> set row" by auto
  from row(1) obtain i where i: "i < length t" "row = t ! i" by (auto simp: in_set_conv_nth)
  from row(2) obtain j where j: "j < length row" "v = row ! j" by (auto simp: in_set_conv_nth)
  have "i \<le> n" using i(1) triangular_length [OF assms(1)] by simp
  then have "length row = n - i + 1" using triangular_row [OF assms(1)] i(2) by simp
  with j(1) \<open>i \<le> n\<close> have "i + j \<le> n" by simp
  with i(2) j(2) show ?thesis by blast
qed

lemma triangular_nth_mem:
  assumes "triangular n t" "i + j \<le> n"
  shows "t ! i ! j \<in> set (concat t)"
proof -
  have "i < length t" using triangular_length [OF assms(1)] assms(2) by simp
  moreover have "j < length (t ! i)" using triangular_row [OF assms(1), of i] assms(2) by simp
  ultimately have "t ! i \<in> set t" "t ! i ! j \<in> set (t ! i)" by simp_all
  then show ?thesis by auto
qed

lemma sineBased_octant:
  assumes "i + j \<le> n"
  shows "onOctant (sineBased n ! i ! j)"
proof -
  let ?w = "sines n ! i ! j"
  have "?w \<in> set (concat (sines n))" using triangular_sines assms by (rule triangular_nth_mem)
  from sines_points [OF this] have w: "0 \<le> vx ?w" "0 \<le> vy ?w" "0 \<le> vz ?w" "vlength ?w \<noteq> 0"
    by simp_all
  then have "vx ?w \<noteq> 0 \<or> vy ?w \<noteq> 0 \<or> vz ?w \<noteq> 0" by (simp add: vlength_zero_iff)
  with w(1-3) have "0 < baryNorm ?w"
    by (auto simp: baryNorm_def intro: add_pos_nonneg add_nonneg_pos)
  with w(1-3) have "onOctant (normalize' ?w)" by (rule normalize'_octant)
  then show ?thesis unfolding sineBased_def by (simp add: map2'_nth [OF triangular_sines assms])
qed

lemma balanced_points:
  "\<exists>res. balanced n = Inr res \<and> (\<forall>v \<in> set (concat (returned res)). vlength v = 1)"
proof -
  from balanced_run [of n] obtain m
    where b: "balanced n = Inr \<lparr>returned = passesOf m (sineBased n), passes = m, warnings = []\<rparr>"
    by blast
  have t: "triangular n (passesOf m (sineBased n))"
    using triangular_sineBased by (rule triangular_passesOf)
  have o: "\<forall>i j. i + j \<le> n \<longrightarrow> onOctant (passesOf m (sineBased n) ! i ! j)"
    using triangular_sineBased by (rule passesOf_octant) (simp add: sineBased_octant)
  have "vlength v = 1" if "v \<in> set (concat (passesOf m (sineBased n)))" for v
    using triangular_points [OF t that] o by (auto simp: onOctant_def)
  with b show ?thesis by auto
qed

lemma sin_lower_5:
  fixes y :: real
  assumes "0 \<le> y"
  shows "y - y ^ 3 / 6 - y ^ 5 / 120 \<le> sin y"
proof -
  have sum5: "(\<Sum>m<5. f m) = f 0 + f 1 + f 2 + f 3 + f 4" for f :: "nat \<Rightarrow> real"
    by (simp add: numeral_eq_Suc lessThan_Suc)
  have c: "sin_coeff 0 = 0" "sin_coeff 1 = 1" "sin_coeff 2 = 0" "sin_coeff 3 = - (1 / 6)"
    "sin_coeff 4 = 0"
    by (simp_all add: sin_coeff_def fact_numeral)
  have s: "(\<Sum>m<5. sin_coeff m * y ^ m) = y - y ^ 3 / 6"
    unfolding sum5 c by simp
  have "\<bar>sin y - (\<Sum>m<5. sin_coeff m * y ^ m)\<bar> \<le> inverse (fact 5) * \<bar>y\<bar> ^ 5"
    by (rule Maclaurin_sin_bound)
  then have "\<bar>sin y - (y - y ^ 3 / 6)\<bar> \<le> y ^ 5 / 120"
    unfolding s using assms by (simp add: fact_numeral)
  then show ?thesis by linarith
qed

lemma pi_sixth_bound:
  fixes y c :: real
  assumes "0 \<le> y" "y \<le> c" "sin y = 1 / 2" "0 \<le> c"
  shows "y * (1 - c\<^sup>2 / 6 - c ^ 4 / 120) \<le> 1 / 2"
proof -
  have c2: "y\<^sup>2 \<le> c\<^sup>2" using assms by (simp add: power_mono)
  have c4: "y ^ 4 \<le> c ^ 4" using assms by (simp add: power_mono)
  have "y ^ 3 = y * y\<^sup>2" by (simp add: power3_eq_cube power2_eq_square)
  also have "\<dots> \<le> y * c\<^sup>2" using c2 assms(1) by (rule mult_left_mono)
  finally have y3: "y ^ 3 \<le> y * c\<^sup>2" .
  have "y ^ 5 = y * y ^ 4" by (simp add: eval_nat_numeral)
  also have "\<dots> \<le> y * c ^ 4" using c4 assms(1) by (rule mult_left_mono)
  finally have y5: "y ^ 5 \<le> y * c ^ 4" .
  have "y * (1 - c\<^sup>2 / 6 - c ^ 4 / 120) = y - y * c\<^sup>2 / 6 - y * c ^ 4 / 120"
    by (simp add: algebra_simps)
  also have "\<dots> \<le> y - y ^ 3 / 6 - y ^ 5 / 120" using y3 y5 by simp
  also have "\<dots> \<le> sin y" using assms(1) by (rule sin_lower_5)
  finally show ?thesis using assms(3) by simp
qed

lemma pi_less_16_5: "pi < 16 / 5"
proof -
  have s: "sin (pi / 6) = 1 / 2" by (rule sin_30)
  have a: "pi < 7 / 2"
  proof (rule ccontr)
    assume "\<not> pi < 7 / 2"
    then have l: "7 / 12 \<le> pi / 6" by simp
    have "pi / 6 * (1 - (2 / 3)\<^sup>2 / 6 - (2 / 3) ^ 4 / 120) \<le> 1 / 2"
      using pi_less_4 by (intro pi_sixth_bound s) simp_all
    moreover have "(0::real) \<le> 1 - (2 / 3)\<^sup>2 / 6 - (2 / 3) ^ 4 / 120"
      by (simp add: power2_eq_square eval_nat_numeral)
    ultimately have "7 / 12 * (1 - (2 / 3)\<^sup>2 / 6 - (2 / 3) ^ 4 / 120) \<le> (1::real) / 2"
      using l by (meson mult_right_mono order_trans)
    then show False by (simp add: power2_eq_square eval_nat_numeral)
  qed
  show ?thesis
  proof (rule ccontr)
    assume "\<not> pi < 16 / 5"
    then have l: "8 / 15 \<le> pi / 6" by simp
    have "pi / 6 * (1 - (7 / 12)\<^sup>2 / 6 - (7 / 12) ^ 4 / 120) \<le> 1 / 2"
      using a by (intro pi_sixth_bound s) simp_all
    moreover have "(0::real) \<le> 1 - (7 / 12)\<^sup>2 / 6 - (7 / 12) ^ 4 / 120"
      by (simp add: power2_eq_square eval_nat_numeral)
    ultimately have "8 / 15 * (1 - (7 / 12)\<^sup>2 / 6 - (7 / 12) ^ 4 / 120) \<le> (1::real) / 2"
      using l by (meson mult_right_mono order_trans)
    then show False by (simp add: power2_eq_square eval_nat_numeral)
  qed
qed


lemma sin_ge_chord:
  assumes "0 \<le> y" "y \<le> pi / 2"
  shows "2 / pi * y \<le> sin y"
proof -
  define f where "f = (\<lambda>x. sin x - 2 / pi * x)"
  define y0 where "y0 = arccos (2 / pi)"
  have d: "DERIV f x :> cos x - 2 / pi" for x
    unfolding f_def by (auto intro!: derivative_eq_intros)
  have p0: "0 \<le> 2 / pi" by simp
  have q1: "- 1 \<le> 2 / pi" using p0 by linarith
  have q2: "2 / pi \<le> 1" using pi_ge_two by simp
  note q = q1 q2
  have c0: "cos y0 = 2 / pi" unfolding y0_def using q by (rule cos_arccos)
  have b0: "0 \<le> y0" "y0 \<le> pi" unfolding y0_def using arccos_bounded [OF q] by simp_all
  have f0: "f 0 = 0" by (simp add: f_def)
  have f1: "f (pi / 2) = 0" by (simp add: f_def)
  have "0 \<le> f y"
  proof (cases "y \<le> y0")
    case True
    have "f 0 \<le> f y"
    proof (rule DERIV_nonneg_imp_nondecreasing [OF assms(1)])
      fix x assume x: "0 \<le> x" "x \<le> y"
      then have "cos y0 \<le> cos x" using True b0 by (intro cos_monotone_0_pi_le) simp_all
      then show "\<exists>z. DERIV f x :> z \<and> 0 \<le> z" using d [of x] c0 by (intro exI [of _ "cos x - 2 / pi"]) simp
    qed
    then show ?thesis by (simp add: f0)
  next
    case False
    have "f (pi / 2) \<le> f y"
    proof (rule DERIV_nonpos_imp_nonincreasing [OF assms(2)])
      fix x assume x: "y \<le> x" "x \<le> pi / 2"
      then have "cos x \<le> cos y0" using False b0 by (intro cos_monotone_0_pi_le) simp_all
      then show "\<exists>z. DERIV f x :> z \<and> z \<le> 0" using d [of x] c0 by (intro exI [of _ "cos x - 2 / pi"]) simp
    qed
    then show ?thesis by (simp add: f1)
  qed
  then show ?thesis by (simp add: f_def)
qed

lemma arcsin_between:
  assumes "0 \<le> x" "x \<le> 1"
  shows "x \<le> arcsin x" "arcsin x \<le> pi / 2 * x"
proof -
  have m: "- 1 \<le> x" using assms(1) by simp
  have a: "0 \<le> arcsin x" using assms by (intro arcsin_nonneg) simp
  have b: "arcsin x \<le> pi / 2" using m assms(2) by (rule arcsin_ubound)
  have s: "sin (arcsin x) = x" using m assms(2) by (rule sin_arcsin)
  show "x \<le> arcsin x" using sin_x_le_x [OF a] s by simp
  have "2 / pi * arcsin x \<le> x" using sin_ge_chord [OF a b] s by simp
  then have "pi / 2 * (2 / pi * arcsin x) \<le> pi / 2 * x" by (intro mult_left_mono) simp_all
  then show "arcsin x \<le> pi / 2 * x" by simp
qed

lemma sin_quarter_between:
  assumes "0 \<le> x" "x \<le> 1"
  shows "x \<le> sin (TAU / 4 * x)" "sin (TAU / 4 * x) \<le> pi / 2 * x"
proof -
  have e: "TAU / 4 * x = pi / 2 * x" by (simp add: TAU_def)
  have a: "0 \<le> pi / 2 * x" using assms(1) by simp
  have b: "pi / 2 * x \<le> pi / 2" using assms(2) by (simp add: mult_left_le)
  show "sin (TAU / 4 * x) \<le> pi / 2 * x" unfolding e using a by (rule sin_x_le_x)
  have "2 / pi * (pi / 2 * x) \<le> sin (pi / 2 * x)" using a b by (rule sin_ge_chord)
  then show "x \<le> sin (TAU / 4 * x)" unfolding e by simp
qed

lemma step_coordinate:
  fixes k pc q r :: real
  assumes k: "1 \<le> k" "k * (k - 1) \<le> 1"
    and "0 \<le> pc" "0 \<le> q" "q \<le> k * pc" "q / k \<le> r" "r \<le> k * q"
  shows "0 \<le> q - (r - pc)" "q - (r - pc) \<le> k * pc"
proof -
  have "(k - 1) * q \<le> (k - 1) * (k * pc)" using assms(5) k(1) by (intro mult_left_mono) simp_all
  also have "\<dots> = k * (k - 1) * pc" by (simp add: algebra_simps)
  also have "\<dots> \<le> 1 * pc" using k(2) assms(3) by (rule mult_right_mono)
  finally have "(k - 1) * q \<le> pc" by simp
  moreover have "q - (r - pc) \<ge> q - k * q + pc" using assms(7) by simp
  moreover have "q - k * q + pc = pc - (k - 1) * q" by (simp add: algebra_simps)
  ultimately show "0 \<le> q - (r - pc)" by linarith
  have kp: "0 < k" using k(1) by simp
  have "q - q / k = q * (1 - 1 / k)" by (simp add: algebra_simps)
  also have "\<dots> \<le> k * pc * (1 - 1 / k)" using assms(5) k(1) by (intro mult_right_mono) simp_all
  also have "\<dots> = k * pc - pc" using kp by (simp add: field_simps)
  finally have "q - q / k \<le> k * pc - pc" .
  moreover have "q - (r - pc) \<le> q - q / k + pc" using assms(6) by simp
  ultimately show "q - (r - pc) \<le> k * pc" by linarith
qed

lemma pi_half_facts: "1 \<le> pi / 2" "pi / 2 * (pi / 2 - 1) \<le> 1"
proof -
  show "1 \<le> pi / 2" using pi_ge_two by simp
  have a: "pi / 2 \<le> 8 / 5" using pi_less_16_5 by simp
  have b: "pi / 2 - 1 \<le> 3 / 5" using pi_less_16_5 by simp
  have c: "0 \<le> pi / 2 - 1" using pi_ge_two by simp
  have "pi / 2 * (pi / 2 - 1) \<le> 8 / 5 * (3 / 5)" using a b c by (intro mult_mono) simp_all
  moreover have "(8 / 5 * (3 / 5) :: real) \<le> 1" by simp
  ultimately show "pi / 2 * (pi / 2 - 1) \<le> 1" by (rule order_trans)
qed

lemma ratio_between:
  fixes k g S th A :: real
  assumes "1 \<le> k" "0 \<le> g" "0 < S" "g \<le> th" "th \<le> k * g" "S \<le> A" "A \<le> k * S"
  shows "g / S / k \<le> th / A" "th / A \<le> k * (g / S)"
proof -
  have kp: "0 < k" using assms(1) by simp
  have Ap: "0 < A" using assms(3,6) by simp
  have th: "0 \<le> th" using assms(2,4) by simp
  have "g / S / k = g / (k * S)" by (simp add: mult.commute)
  also have "\<dots> \<le> g / A" using assms(2,7) Ap by (intro divide_left_mono) (simp_all add: kp assms(3))
  also have "\<dots> \<le> th / A" using assms(4) Ap by (simp add: divide_right_mono)
  finally show "g / S / k \<le> th / A" .
  have "th / A \<le> th / S" using th assms(3,6) by (intro divide_left_mono) simp_all
  also have "\<dots> \<le> k * g / S" using assms(5,3) by (simp add: divide_right_mono)
  finally show "th / A \<le> k * (g / S)" by simp
qed

lemma normalize'_guessFor:
  assumes "0 \<le> vx w" "0 \<le> vy w" "0 \<le> vz w" "0 < baryNorm w"
    "vx w \<le> pi / 2 * vx p * baryNorm w" "vy w \<le> pi / 2 * vy p * baryNorm w"
    "vz w \<le> pi / 2 * vz p * baryNorm w"
  shows "guessFor p (normalize' w)"
proof -
  have o: "onOctant (normalize' w)" using assms(1-4) by (rule normalize'_octant)
  have l0: "vlength w \<noteq> 0" using assms(4) by (intro baryNorm_nonzero_vlength) simp
  then have lp: "0 < vlength w" using vlength_nonneg [of w] by simp
  show ?thesis
  proof (cases "vlength w = 1")
    case True
    then have "normalize' w = w" by (simp add: normalize'_def)
    with o assms show ?thesis by (simp add: guessFor_def)
  next
    case False
    then have n: "normalize' w = scale w (1 / vlength w)"
      using l0 by (simp add: normalize'_def Let_def)
    have b: "baryNorm (scale w (1 / vlength w)) = baryNorm w / vlength w"
      by (simp add: baryNorm_scale)
    have "c / vlength w \<le> pi / 2 * pc * (baryNorm w / vlength w)"
      if "c \<le> pi / 2 * pc * baryNorm w" for c pc
    proof -
      have "c / vlength w \<le> (pi / 2 * pc * baryNorm w) / vlength w"
        using that lp by (intro divide_right_mono) simp_all
      then show ?thesis by simp
    qed
    then have "vx w / vlength w \<le> pi / 2 * vx p * (baryNorm w / vlength w)"
      "vy w / vlength w \<le> pi / 2 * vy p * (baryNorm w / vlength w)"
      "vz w / vlength w \<le> pi / 2 * vz p * (baryNorm w / vlength w)"
      using assms(5-7) by blast+
    then show ?thesis
      using o unfolding guessFor_def n b by (simp add: scale_def v3_def)
  qed
qed

lemma unit_coordinates:
  assumes "vlength g = 1"
  shows "vx g \<le> 1" "vy g \<le> 1" "vz g \<le> 1" "- 1 \<le> vx g" "- 1 \<le> vy g" "- 1 \<le> vz g"
proof -
  have s: "vx g * vx g + vy g * vy g + vz g * vz g = 1"
    using assms by (simp add: vlength_def)
  have "\<bar>c\<bar> \<le> 1" if "c * c \<le> 1" for c :: real
  proof (rule ccontr)
    assume "\<not> \<bar>c\<bar> \<le> 1"
    then have "1 < \<bar>c\<bar>" by simp
    then have "1 * 1 < \<bar>c\<bar> * \<bar>c\<bar>" by (intro mult_strict_mono) simp_all
    with that show False by (simp add: abs_mult_self_eq)
  qed
  moreover have "vx g * vx g \<le> 1" "vy g * vy g \<le> 1" "vz g * vz g \<le> 1"
    using s zero_le_square [of "vx g"] zero_le_square [of "vy g"] zero_le_square [of "vz g"]
    by linarith+
  ultimately have "\<bar>vx g\<bar> \<le> 1" "\<bar>vy g\<bar> \<le> 1" "\<bar>vz g\<bar> \<le> 1" by blast+
  then show "vx g \<le> 1" "vy g \<le> 1" "vz g \<le> 1" "- 1 \<le> vx g" "- 1 \<le> vy g" "- 1 \<le> vz g"
    by linarith+
qed

lemma solverStep_guessFor:
  assumes p: "0 \<le> vx p" "0 \<le> vy p" "0 \<le> vz p" "baryNorm p = 1" and g: "guessFor p g"
  shows "\<exists>g'. solverStep p g = Some g' \<and> guessFor p g'"
proof -
  define x y z where "x = vx g" and "y = vy g" and "z = vz g"
  define S where "S = x + y + z"
  define tx ty tz where "tx = arcsin x" and "ty = arcsin y" and "tz = arcsin z"
  define A where "A = tx + ty + tz"
  define k where "k = pi / 2"
  from g have o: "onOctant g" and u: "vlength g = 1" and n: "0 \<le> x" "0 \<le> y" "0 \<le> z"
    and c: "x \<le> k * vx p * S" "y \<le> k * vy p * S" "z \<le> k * vz p * S"
    by (simp_all add: guessFor_def onOctant_def x_def y_def z_def S_def baryNorm_def k_def)
  have Sp: "0 < S" using onOctant_baryNorm [OF o] by (simp add: S_def baryNorm_def x_def y_def z_def)
  note uc = unit_coordinates [OF u, folded x_def y_def z_def]
  have t: "x \<le> tx" "tx \<le> k * x" "y \<le> ty" "ty \<le> k * y" "z \<le> tz" "tz \<le> k * z"
    unfolding tx_def ty_def tz_def k_def using arcsin_between n uc(1-3) by blast+
  have SA: "S \<le> A" using t(1,3,5) by (simp add: S_def A_def)
  have "A \<le> k * x + k * y + k * z" using t(2,4,6) by (simp add: A_def)
  then have AS: "A \<le> k * S" by (simp add: S_def algebra_simps)
  have Ap: "0 < A" using Sp SA by simp
  have k: "1 \<le> k" "k * (k - 1) \<le> 1" unfolding k_def by (rule pi_half_facts)+
  define wx wy wz where "wx = x / S - (tx / A - vx p)" and "wy = y / S - (ty / A - vy p)"
    and "wz = z / S - (tz / A - vz p)"
  have q: "0 \<le> c / S" "c / S \<le> k * pc" if "0 \<le> c" "c \<le> k * pc * S" for c pc
  proof -
    show "0 \<le> c / S" using that(1) Sp by simp
    have "c / S \<le> (k * pc * S) / S" using that(2) Sp by (intro divide_right_mono) simp_all
    then show "c / S \<le> k * pc" using Sp by simp
  qed
  have bx: "0 \<le> wx" "wx \<le> k * vx p"
    unfolding wx_def
    by (rule step_coordinate [OF k p(1) q [OF n(1) c(1)]
          ratio_between [OF k(1) n(1) Sp t(1,2) SA AS]])+
  have by': "0 \<le> wy" "wy \<le> k * vy p"
    unfolding wy_def
    by (rule step_coordinate [OF k p(2) q [OF n(2) c(2)]
          ratio_between [OF k(1) n(2) Sp t(3,4) SA AS]])+
  have bz: "0 \<le> wz" "wz \<le> k * vz p"
    unfolding wz_def
    by (rule step_coordinate [OF k p(3) q [OF n(3) c(3)]
          ratio_between [OF k(1) n(3) Sp t(5,6) SA AS]])+
  have "wx + wy + wz = (x + y + z) / S - ((tx + ty + tz) / A - (vx p + vy p + vz p))"
    by (simp add: wx_def wy_def wz_def add_divide_distrib)
  also have "\<dots> = 1" using Sp Ap p(4) by (simp add: S_def [symmetric] A_def [symmetric] baryNorm_def)
  finally have sum: "wx + wy + wz = 1" .
  have a: "arcsines g = Some (v3 tx ty tz)"
    using uc by (simp add: arcsines_def x_def y_def z_def tx_def ty_def tz_def)
  have b: "barycentric (v3 tx ty tz) = Some (v3 (tx / A) (ty / A) (tz / A))"
    using Ap by (simp add: barycentric_def v3_def A_def)
  have bg: "barycentric g = Some (v3 (x / S) (y / S) (z / S))"
    using Sp by (simp add: barycentric_def x_def y_def z_def S_def)
  have step: "solverStep p g = Some (normalize' (v3 wx wy wz))"
    by (simp add: solverStep_def solverOffset_def solverAngles_def a b bg)
       (simp add: v3_def wx_def wy_def wz_def)
  have "guessFor p (normalize' (v3 wx wy wz))"
    using bx by' bz sum by (intro normalize'_guessFor) (simp_all add: v3_def baryNorm_def k_def)
  with step show ?thesis by blast
qed


lemma sineGuess_guessFor:
  assumes "0 \<le> vx p" "0 \<le> vy p" "0 \<le> vz p" "baryNorm p = 1"
  shows "guessFor p (sineGuess p)"
proof -
  define wx wy wz where "wx = sin (TAU / 4 * vx p)" and "wy = sin (TAU / 4 * vy p)"
    and "wz = sin (TAU / 4 * vz p)"
  have le: "vx p \<le> 1" "vy p \<le> 1" "vz p \<le> 1" using assms by (simp_all add: baryNorm_def)
  have b: "vx p \<le> wx" "wx \<le> pi / 2 * vx p" "vy p \<le> wy" "wy \<le> pi / 2 * vy p"
    "vz p \<le> wz" "wz \<le> pi / 2 * vz p"
    unfolding wx_def wy_def wz_def using sin_quarter_between assms(1-3) le by blast+
  have s: "1 \<le> wx + wy + wz" using b(1,3,5) assms(4) by (simp add: baryNorm_def)
  have m: "c \<le> pi / 2 * pc * (wx + wy + wz)" if "c \<le> pi / 2 * pc" "0 \<le> pc" for c pc
  proof -
    have "c \<le> pi / 2 * pc * 1" using that(1) by simp
    also have "\<dots> \<le> pi / 2 * pc * (wx + wy + wz)"
      using s that(2) by (intro mult_left_mono) simp_all
    finally show ?thesis .
  qed
  have "guessFor p (normalize' (v3 wx wy wz))"
  proof (rule normalize'_guessFor)
    show "0 \<le> vx (v3 wx wy wz)" "0 \<le> vy (v3 wx wy wz)" "0 \<le> vz (v3 wx wy wz)"
      using b(1,3,5) assms(1-3) by (simp_all add: v3_def)
    show "0 < baryNorm (v3 wx wy wz)" using s by (simp add: baryNorm_def v3_def)
    show "vx (v3 wx wy wz) \<le> pi / 2 * vx p * baryNorm (v3 wx wy wz)"
      "vy (v3 wx wy wz) \<le> pi / 2 * vy p * baryNorm (v3 wx wy wz)"
      "vz (v3 wx wy wz) \<le> pi / 2 * vz p * baryNorm (v3 wx wy wz)"
      using m [OF b(2) assms(1)] m [OF b(4) assms(2)] m [OF b(6) assms(3)]
      by (simp_all add: baryNorm_def v3_def)
  qed
  then show ?thesis by (simp add: sineGuess_def wx_def wy_def wz_def)
qed

lemma solverIterate_guessFor:
  assumes "0 \<le> vx p" "0 \<le> vy p" "0 \<le> vz p" "baryNorm p = 1" "guessFor p g"
  shows "\<exists>g'. solverIterate p m (Some g) = Some g' \<and> guessFor p g'"
  using assms(5)
proof (induction m arbitrary: g)
  case 0
  then show ?case by simp
next
  case (Suc m)
  from solverStep_guessFor [OF assms(1-4) Suc.prems] obtain h
    where h: "solverStep p g = Some h" "guessFor p h" by blast
  from Suc.IH [OF h(2)] show ?case by (simp add: h(1))
qed

lemma solverRun_returned:
  "\<exists>m \<le> 30. returned (solverRun p g) = solverIterate p m (Some g)"
proof (cases "find (succeedsAt p g) [0 ..< 30]")
  case None
  then show ?thesis by (auto simp: solverRun_def)
next
  case (Some m)
  then have "m < 30" by (auto simp: find_Some_iff)
  with Some show ?thesis by (auto simp: solverRun_def intro!: exI [of _ m])
qed

lemma findSineRatio_returned:
  assumes "0 \<le> vx p" "0 \<le> vy p" "0 \<le> vz p" "baryNorm p = 1"
  shows "\<exists>g. returned (findSineRatio p) = Some g \<and> vlength g = 1"
proof -
  have "findSineRatio p = solverRun p (sineGuess p)"
    unfolding findSineRatio_def by (rule findSineRatio_loop_solverRun)
  with solverRun_returned [of p "sineGuess p"] obtain m
    where "returned (findSineRatio p) = solverIterate p m (Some (sineGuess p))" by auto
  moreover from solverIterate_guessFor [OF assms sineGuess_guessFor [OF assms], of m]
  obtain g where "solverIterate p m (Some (sineGuess p)) = Some g" "guessFor p g" by blast
  ultimately show ?thesis by (auto simp: guessFor_def onOctant_def)
qed

lemma asinBased_points:
  assumes "v \<in> set (concat (asinBased n r))"
  shows "\<exists>g. v = Some g \<and> vlength g = 1"
proof -
  from assms obtain p where p: "p \<in> set (concat (flat n r))" and v: "v = returned (findSineRatio p)"
    unfolding asinBased_def set_concat_map2' by blast
  from flat_points [OF p] show ?thesis unfolding v by (intro findSineRatio_returned) simp_all
qed

lemma proj_Some_unit: "proj p = Some q \<Longrightarrow> vlength q = 1"
proof -
  assume q: "proj p = Some q"
  then have "0 \<le> 2 * (vx p * vy p + vx p * vz p + vy p * vz p
      - vx p * vx p - vy p * vy p - vz p * vz p) + 3"
    by (auto simp: proj_def Let_def split: if_splits)
  from proj_unit [OF this] q show ?thesis by simp
qed

text \<open>
  Claim C6. For every order \<open>n\<close> (and every refinement \<open>r\<close>, which the page leaves at 1),
  every vertex of \<^verbatim>\<open>geodesics\<close>, \<^verbatim>\<open>sineBased\<close>, \<^verbatim>\<open>sineBased2\<close>, \<^verbatim>\<open>asinBased\<close> and \<^verbatim>\<open>balanced\<close>
  has Euclidean norm 1, so within \<open>10\<^sup>-\<^sup>6\<close> of 1. For \<^verbatim>\<open>sineBased2\<close> and \<^verbatim>\<open>asinBased\<close> this
  includes that every coordinate is a finite number: the radicand of the projection is
  not negative on the sine warp of a point of the face, and a guess of the solver never
  leaves the first octant, where the sums it divides by are at least 1. \<^verbatim>\<open>balanced\<close>
  returns, and its grid has unit vectors after every pass. Whatever point the parallel
  projection returns lies exactly on the unit sphere. The numbers are exact reals: the
  rounding of the double-precision numbers of the program is not part of the model.
\<close>

theorem generators_on_sphere:
  "(\<forall>v \<in> set (concat (geodesics n r)). vlength v = 1 \<and> \<bar>vlength v - 1\<bar> \<le> 1 / 10 ^ 6)
   \<and> (\<forall>v \<in> set (concat (sineBased n)). vlength v = 1 \<and> \<bar>vlength v - 1\<bar> \<le> 1 / 10 ^ 6)
   \<and> (\<forall>v \<in> set (concat (sineBased2 n)).
         \<exists>q. v = Some q \<and> vlength q = 1 \<and> \<bar>vlength q - 1\<bar> \<le> 1 / 10 ^ 6)
   \<and> (\<forall>v \<in> set (concat (asinBased n r)).
         \<exists>g. v = Some g \<and> vlength g = 1 \<and> \<bar>vlength g - 1\<bar> \<le> 1 / 10 ^ 6)
   \<and> (\<exists>res. balanced n = Inr res
         \<and> (\<forall>v \<in> set (concat (returned res)). vlength v = 1 \<and> \<bar>vlength v - 1\<bar> \<le> 1 / 10 ^ 6))
   \<and> (\<forall>p q. proj p = Some q \<longrightarrow> vlength q = 1)"
proof -
  have a: "\<forall>v \<in> set (concat (geodesics n r)). vlength v = 1 \<and> \<bar>vlength v - 1\<bar> \<le> 1 / 10 ^ 6"
    using geodesics_points by simp
  have b: "\<forall>v \<in> set (concat (sineBased n)). vlength v = 1 \<and> \<bar>vlength v - 1\<bar> \<le> 1 / 10 ^ 6"
    using sineBased_points by simp
  have c: "\<forall>v \<in> set (concat (sineBased2 n)).
      \<exists>q. v = Some q \<and> vlength q = 1 \<and> \<bar>vlength q - 1\<bar> \<le> 1 / 10 ^ 6"
  proof
    fix v assume "v \<in> set (concat (sineBased2 n))"
    from sineBased2_points [OF this]
    show "\<exists>q. v = Some q \<and> vlength q = 1 \<and> \<bar>vlength q - 1\<bar> \<le> 1 / 10 ^ 6" by auto
  qed
  have d: "\<forall>v \<in> set (concat (asinBased n r)).
      \<exists>g. v = Some g \<and> vlength g = 1 \<and> \<bar>vlength g - 1\<bar> \<le> 1 / 10 ^ 6"
  proof
    fix v assume "v \<in> set (concat (asinBased n r))"
    from asinBased_points [OF this]
    show "\<exists>g. v = Some g \<and> vlength g = 1 \<and> \<bar>vlength g - 1\<bar> \<le> 1 / 10 ^ 6" by auto
  qed
  have e: "\<exists>res. balanced n = Inr res
      \<and> (\<forall>v \<in> set (concat (returned res)). vlength v = 1 \<and> \<bar>vlength v - 1\<bar> \<le> 1 / 10 ^ 6)"
    using balanced_points [of n] by auto
  have f: "\<forall>p q. proj p = Some q \<longrightarrow> vlength q = 1"
    using proj_Some_unit by blast
  show ?thesis by (intro conjI a b c d e f)
qed

theorem generators_on_sphere_witness:
  "v3 (sqrt 2 / 2) 0 (sqrt 2 / 2) \<in> set (concat (sineBased 2))
   \<and> \<bar>vlength (v3 (sqrt 2 / 2) 0 (sqrt 2 / 2)) - 1\<bar> \<le> 1 / 10 ^ 6
   \<and> proj ex = Some ex \<and> vlength ex = 1"
proof -
  have m: "v3 (sqrt 2 / 2) 0 (sqrt 2 / 2) \<in> set (concat (sineBased 2))"
    by (simp add: sineBased_2)
  have e: "proj ex = Some ex" by (rule proj_ex)
  from generators_on_sphere [of 2 1] m e show ?thesis by blast
qed

subsection \<open>Non-convergence\<close>




end
